theory Spec2Isabelle
  imports Complex_Main
begin

section \<open>Arrays over exact reals\<close>

text \<open>
  The notebooks compute with numpy arrays. A one-dimensional array is a list of reals, a
  two-dimensional array carries its shape and its rows. Arithmetic is exact (real numbers
  instead of floats). The exceptions numpy raises are values of a sum type.
\<close>

datatype error = ValueError | IndexError | LinAlgError

type_synonym vec = "real list"

record mat =
  nrows :: nat
  ncols :: nat
  rows :: "real list list"

definition wf_mat :: "mat \<Rightarrow> bool" where
  "wf_mat m \<longleftrightarrow> length (rows m) = nrows m \<and> list_all (\<lambda>r. length r = ncols m) (rows m)"

definition bindE :: "error + 'a \<Rightarrow> ('a \<Rightarrow> error + 'b) \<Rightarrow> error + 'b" where
  "bindE m f = (case m of Inl e \<Rightarrow> Inl e | Inr a \<Rightarrow> f a)"

text \<open>Python indexing along an axis of extent \<open>n\<close>: a negative index counts from the end.\<close>

definition norm_index :: "nat \<Rightarrow> int \<Rightarrow> error + nat" where
  "norm_index n i =
     (if 0 \<le> i \<and> i < int n then Inr (nat i)
      else if - int n \<le> i \<and> i < 0 then Inr (nat (i + int n))
      else Inl IndexError)"

text \<open>\<open>x[:, i]\<close>, \<open>v[i, k]\<close>, and the assignments \<open>w[i] = a\<close>, \<open>v[i, k] = a\<close>.\<close>

definition col :: "mat \<Rightarrow> int \<Rightarrow> error + vec" where
  "col x i = bindE (norm_index (ncols x) i) (\<lambda>j. Inr (map (\<lambda>r. r ! j) (rows x)))"

definition item1 :: "vec \<Rightarrow> int \<Rightarrow> error + real" where
  "item1 w i = bindE (norm_index (length w) i) (\<lambda>j. Inr (w ! j))"

definition item2 :: "mat \<Rightarrow> int \<Rightarrow> int \<Rightarrow> error + real" where
  "item2 v i k =
     bindE (norm_index (nrows v) i) (\<lambda>i'.
     bindE (norm_index (ncols v) k) (\<lambda>k'. Inr (rows v ! i' ! k')))"

definition set_item1 :: "vec \<Rightarrow> int \<Rightarrow> real \<Rightarrow> error + vec" where
  "set_item1 w i a = bindE (norm_index (length w) i) (\<lambda>j. Inr (w[j := a]))"

definition set_item2 :: "mat \<Rightarrow> int \<Rightarrow> int \<Rightarrow> real \<Rightarrow> error + mat" where
  "set_item2 v i k a =
     bindE (norm_index (nrows v) i) (\<lambda>i'.
     bindE (norm_index (ncols v) k) (\<lambda>k'.
       Inr (v\<lparr>rows := (rows v)[i' := (rows v ! i')[k' := a]]\<rparr>)))"

text \<open>
  Elementwise arithmetic of two one-dimensional arrays, with numpy's broadcasting: equal
  lengths, or one operand of length 1 that is stretched; any other pair of lengths raises.
\<close>

definition np_binop :: "(real \<Rightarrow> real \<Rightarrow> 'a) \<Rightarrow> vec \<Rightarrow> vec \<Rightarrow> error + 'a list" where
  "np_binop f a c =
     (if length a = length c then Inr (map2 f a c)
      else if length a = 1 then Inr (map (f (a ! 0)) c)
      else if length c = 1 then Inr (map (\<lambda>t. f t (c ! 0)) a)
      else Inl ValueError)"

definition scale :: "real \<Rightarrow> vec \<Rightarrow> vec" where
  "scale s a = map (\<lambda>t. s * t) a"

text \<open>The operator \<open>@\<close>: inner product of two rows, matrix times vector, matrix times matrix.\<close>

definition dot :: "vec \<Rightarrow> vec \<Rightarrow> real" where
  "dot a c = sum_list (map2 (*) a c)"

definition matvec :: "mat \<Rightarrow> vec \<Rightarrow> error + vec" where
  "matvec x w =
     (if ncols x = length w then Inr (map (\<lambda>r. dot r w) (rows x)) else Inl ValueError)"

definition matmul :: "mat \<Rightarrow> mat \<Rightarrow> error + mat" where
  "matmul x v =
     (if ncols x = nrows v
      then Inr \<lparr>nrows = nrows x, ncols = ncols v,
                rows = map (\<lambda>r. map (\<lambda>k. dot r (map (\<lambda>vr. vr ! k) (rows v))) [0..<ncols v])
                           (rows x)\<rparr>
      else Inl ValueError)"

text \<open>\<open>m ** 2\<close>, the difference of two arrays of one shape, and \<open>np.sum(m, axis=1)\<close>.\<close>

definition mat_sq :: "mat \<Rightarrow> mat" where
  "mat_sq m = m\<lparr>rows := map (map (\<lambda>t. t ^ 2)) (rows m)\<rparr>"

definition mat_sub :: "mat \<Rightarrow> mat \<Rightarrow> error + mat" where
  "mat_sub m n =
     (if nrows m = nrows n \<and> ncols m = ncols n
      then Inr (m\<lparr>rows := map2 (map2 (-)) (rows m) (rows n)\<rparr>)
      else Inl ValueError)"

definition sum_axis1 :: "mat \<Rightarrow> vec" where
  "sum_axis1 m = map sum_list (rows m)"

section \<open>The factorization machine\<close>

text \<open>
  \<open>FactorizationMachines.params\<close> is the dictionary with the keys \<open>b\<close>, \<open>w\<close> and \<open>v\<close>.
  \<open>predict\<close> takes a row or a batch and returns a float or an array.
\<close>

record params =
  param_b :: real
  param_w :: vec
  param_v :: mat

datatype ndarray = Arr1 vec | Arr2 mat

datatype pyval = Scalar real | Vector vec

definition as_batch :: "ndarray \<Rightarrow> mat" where
  "as_batch x = (case x of Arr1 xs \<Rightarrow> \<lparr>nrows = 1, ncols = length xs, rows = [xs]\<rparr> | Arr2 m \<Rightarrow> m)"

definition predict :: "params \<Rightarrow> ndarray \<Rightarrow> error + pyval" where
  "predict self x0 =
     (let x = as_batch x0;
          b = param_b self;
          w = param_w self;
          v = param_v self;
          bias = b
      in bindE (matvec x w) (\<lambda>linear.
         bindE (matmul x v) (\<lambda>xv.
         bindE (matmul (mat_sq x) (mat_sq v)) (\<lambda>x2v2.
         bindE (mat_sub (mat_sq xv) x2v2) (\<lambda>d.
         bindE (np_binop (+) (map (\<lambda>t. bias + t) linear) (scale 0.5 (sum_axis1 d))) (\<lambda>result.
           if length result = 1 then Inr (Scalar (result ! 0)) else Inr (Vector result)))))))"

text \<open>A float meeting an array in arithmetic is broadcast; this is the array it stands for.\<close>

definition as_array :: "pyval \<Rightarrow> vec" where
  "as_array y = (case y of Scalar r \<Rightarrow> [r] | Vector ys \<Rightarrow> ys)"

subsection \<open>The linear form in one parameter\<close>

definition calc_h_b :: "mat \<Rightarrow> vec" where
  "calc_h_b x = replicate (nrows x) 1"

definition calc_h_w :: "mat \<Rightarrow> int \<Rightarrow> error + vec" where
  "calc_h_w x i = col x i"

definition calc_h_v :: "mat \<Rightarrow> mat \<Rightarrow> int \<Rightarrow> int \<Rightarrow> error + vec" where
  "calc_h_v x v i k =
     bindE (col x i) (\<lambda>xi.
     bindE (col v k) (\<lambda>vk.
     bindE (matvec x vk) (\<lambda>xvk.
     bindE (col x i) (\<lambda>xi'.
     bindE (item2 v i k) (\<lambda>vik.
     bindE (np_binop (-) xvk (scale vik xi')) (\<lambda>t.
       np_binop (*) xi t))))))"

definition calc_g :: "vec \<Rightarrow> vec \<Rightarrow> real \<Rightarrow> error + vec" where
  "calc_g f h p = np_binop (-) f (scale p h)"

subsection \<open>The cached state and its increments\<close>

definition calc_df :: "vec \<Rightarrow> real \<Rightarrow> real \<Rightarrow> vec" where
  "calc_df h p_new p_old = scale (p_new - p_old) h"

definition calc_q_init :: "mat \<Rightarrow> mat \<Rightarrow> error + mat" where
  "calc_q_init x v = matmul x v"

definition calc_dq :: "mat \<Rightarrow> real \<Rightarrow> mat \<Rightarrow> int \<Rightarrow> int \<Rightarrow> error + vec" where
  "calc_dq x v_ik_new v i k =
     bindE (item2 v i k) (\<lambda>vik.
     bindE (col x i) (\<lambda>xi. Inr (scale (v_ik_new - vik) xi)))"

definition calc_h_v_fast :: "mat \<Rightarrow> mat \<Rightarrow> mat \<Rightarrow> int \<Rightarrow> int \<Rightarrow> error + vec" where
  "calc_h_v_fast x v q i k =
     bindE (col x i) (\<lambda>xi.
     bindE (col q k) (\<lambda>qk.
     bindE (col x i) (\<lambda>xi'.
     bindE (item2 v i k) (\<lambda>vik.
     bindE (np_binop (-) qk (scale vik xi')) (\<lambda>t.
       np_binop (*) xi t)))))"

text \<open>
  The in-place statement \<open>q[:, k] += d\<close>: the right-hand side must have the length of the
  column, or length 1.
\<close>

definition add_col :: "mat \<Rightarrow> int \<Rightarrow> vec \<Rightarrow> error + mat" where
  "add_col q k d =
     bindE (norm_index (ncols q) k) (\<lambda>k'.
       if length d = nrows q
       then Inr (q\<lparr>rows := map2 (\<lambda>r a. r[k' := r ! k' + a]) (rows q) d\<rparr>)
       else if length d = 1
       then Inr (q\<lparr>rows := map (\<lambda>r. r[k' := r ! k' + d ! 0]) (rows q)\<rparr>)
       else Inl ValueError)"

text \<open>
  The body of the loop of \<open>fast_updates\<close>, which the notebook runs at \<open>i = k = 0\<close> with
  \<open>v_ik_new = v[0, 0] - 100\<close>; here the indices and the new value are arguments:
  \<^verbatim>\<open>
      q[:, k] += calc_dq(x, v_ik_new, v, i, k)
      v[i, k] = v_ik_new
  \<close>
  The pair is the factor matrix and the cache \<open>q\<close>; the increment reads the old entry of
  \<open>v\<close> before the assignment replaces it.
\<close>

definition update_q :: "mat \<Rightarrow> mat \<times> mat \<Rightarrow> int \<times> int \<times> real \<Rightarrow> error + mat \<times> mat" where
  "update_q x s u =
     (case s of (v, q) \<Rightarrow> case u of (i, k, v_ik_new) \<Rightarrow>
        bindE (calc_dq x v_ik_new v i k) (\<lambda>dq.
        bindE (add_col q k dq) (\<lambda>q'.
        bindE (set_item2 v i k v_ik_new) (\<lambda>v'. Inr (v', q')))))"

fun update_q_all :: "mat \<Rightarrow> mat \<times> mat \<Rightarrow> (int \<times> int \<times> real) list \<Rightarrow> error + mat \<times> mat" where
  "update_q_all x s [] = Inr s"
| "update_q_all x s (u # us) = bindE (update_q x s u) (\<lambda>s'. update_q_all x s' us)"

text \<open>The entry \<open>(i, k)\<close> exists in an array of the shape of \<open>v\<close>.\<close>

definition valid_ik :: "mat \<Rightarrow> int \<times> int \<times> real \<Rightarrow> bool" where
  "valid_ik v u =
     (case u of (i, k, a) \<Rightarrow>
        - int (nrows v) \<le> i \<and> i < int (nrows v) \<and> - int (ncols v) \<le> k \<and> k < int (ncols v))"

subsection \<open>One update of the cached state\<close>

text \<open>
  A single scalar parameter is the bias, an entry of \<open>w\<close> or an entry of \<open>v\<close>. The notebook
  reads and writes it as \<open>fm.params['b']\<close>, \<open>fm.params['w'][i]\<close> and
  \<open>fm.params['v'][i, k]\<close>.
\<close>

datatype theta = Theta_b | Theta_w int | Theta_v int int

definition get_param :: "params \<Rightarrow> theta \<Rightarrow> error + real" where
  "get_param self th =
     (case th of
        Theta_b \<Rightarrow> Inr (param_b self)
      | Theta_w i \<Rightarrow> item1 (param_w self) i
      | Theta_v i k \<Rightarrow> item2 (param_v self) i k)"

definition set_param :: "params \<Rightarrow> theta \<Rightarrow> real \<Rightarrow> error + params" where
  "set_param self th a =
     (case th of
        Theta_b \<Rightarrow> Inr (self\<lparr>param_b := a\<rparr>)
      | Theta_w i \<Rightarrow> bindE (set_item1 (param_w self) i a) (\<lambda>w'. Inr (self\<lparr>param_w := w'\<rparr>))
      | Theta_v i k \<Rightarrow> bindE (set_item2 (param_v self) i k a) (\<lambda>v'. Inr (self\<lparr>param_v := v'\<rparr>)))"

text \<open>
  Modelled from the spec: \<open>partial_derivative\<close> and \<open>apply_update\<close>. The notebook defines
  \<open>calc_df\<close>, \<open>calc_dq\<close> and the three formulas for \<open>h\<close>, but no function that selects among
  them, that commits an update of \<open>b\<close> or \<open>w\<close>, or that adds \<open>calc_df\<close> to the cached \<open>f\<close>.
  The derivative is \<open>calc_h_b\<close>, \<open>calc_h_w\<close> or, from the cached \<open>q\<close>, \<open>calc_h_v_fast\<close>. The step
  follows the specification: \<open>f \<leftarrow> f + (new - old) * h\<close> for every kind of parameter, for
  \<open>v[i, k]\<close> also \<open>q[:, k] \<leftarrow> q[:, k] + x[:, i] * (new - old)\<close>, and then the new value is
  stored.
\<close>

record cache =
  cache_f :: vec
  cache_q :: mat

definition partial_derivative :: "mat \<Rightarrow> mat \<Rightarrow> mat \<Rightarrow> theta \<Rightarrow> error + vec" where
  "partial_derivative x v q th =
     (case th of
        Theta_b \<Rightarrow> Inr (calc_h_b x)
      | Theta_w i \<Rightarrow> calc_h_w x i
      | Theta_v i k \<Rightarrow> calc_h_v_fast x v q i k)"

definition apply_update ::
  "mat \<Rightarrow> params \<times> cache \<Rightarrow> theta \<times> real \<Rightarrow> error + params \<times> cache" where
  "apply_update x s u =
     (case s of (self, c) \<Rightarrow> case u of (th, new_value) \<Rightarrow>
        bindE (partial_derivative x (param_v self) (cache_q c) th) (\<lambda>h.
        bindE (get_param self th) (\<lambda>old_value.
        bindE (np_binop (+) (cache_f c) (calc_df h new_value old_value)) (\<lambda>f'.
        bindE (case th of
                 Theta_v i k \<Rightarrow>
                   bindE (calc_dq x new_value (param_v self) i k) (\<lambda>dq. add_col (cache_q c) k dq)
               | _ \<Rightarrow> Inr (cache_q c)) (\<lambda>q'.
        bindE (set_param self th new_value) (\<lambda>self'.
          Inr (self', \<lparr>cache_f = f', cache_q = q'\<rparr>)))))))"

fun apply_updates ::
  "mat \<Rightarrow> params \<times> cache \<Rightarrow> (theta \<times> real) list \<Rightarrow> error + params \<times> cache" where
  "apply_updates x s [] = Inr s"
| "apply_updates x s (u # us) = bindE (apply_update x s u) (\<lambda>s'. apply_updates x s' us)"

text \<open>The cached state a sampling loop starts from: a full forward pass and \<open>q = x @ v\<close>.\<close>

definition init_cache :: "mat \<Rightarrow> params \<Rightarrow> error + cache" where
  "init_cache x self =
     bindE (predict self (Arr2 x)) (\<lambda>y.
     bindE (calc_q_init x (param_v self)) (\<lambda>q.
       Inr \<lparr>cache_f = as_array y, cache_q = q\<rparr>))"

definition valid_theta :: "params \<Rightarrow> theta \<times> real \<Rightarrow> bool" where
  "valid_theta self u =
     (case fst u of
        Theta_b \<Rightarrow> True
      | Theta_w i \<Rightarrow> - int (length (param_w self)) \<le> i \<and> i < int (length (param_w self))
      | Theta_v i k \<Rightarrow> valid_ik (param_v self) (i, k, snd u))"

subsection \<open>The defining formula\<close>

text \<open>
  The factorization machine as the notebook introduces it, with the interaction written as
  the sum over the pairs \<open>i < j\<close>:
  \<open>f(x) = b + \<Sum>\<^sub>i w\<^sub>i x\<^sub>i + \<Sum>\<^sub>i\<^sub><\<^sub>j \<Sum>\<^sub>k v\<^sub>i\<^sub>k v\<^sub>j\<^sub>k x\<^sub>i x\<^sub>j\<close>.
\<close>

definition fm_pairwise :: "params \<Rightarrow> vec \<Rightarrow> real" where
  "fm_pairwise self x =
     (let b = param_b self; w = param_w self; v = param_v self
      in b + (\<Sum>i<length x. w ! i * x ! i)
           + (\<Sum>j<length x. \<Sum>i<j. \<Sum>k<ncols v.
                rows v ! i ! k * rows v ! j ! k * x ! i * x ! j))"

subsection \<open>Auxiliary notions for the proofs\<close>

text \<open>
  The score of one row, as \<open>predict\<close> computes it: bias, linear term and half the sum over
  the factors of the squared projection minus the projection of the squares.
\<close>

definition row_score :: "params \<Rightarrow> vec \<Rightarrow> real" where
  "row_score self r =
     param_b self + dot r (param_w self)
       + 0.5 * (\<Sum>k<ncols (param_v self).
           (dot r (map (\<lambda>vr. vr ! k) (rows (param_v self)))) ^ 2
           - dot (map (\<lambda>t. t ^ 2) r) (map (\<lambda>vr. vr ! k) (map (map (\<lambda>t. t ^ 2)) (rows (param_v self)))))"

text \<open>The batch has \<open>N\<close> columns, \<open>w\<close> has length \<open>N\<close> and \<open>v\<close> has \<open>N\<close> rows.\<close>

definition shapes_ok :: "params \<Rightarrow> mat \<Rightarrow> bool" where
  "shapes_ok self x \<longleftrightarrow>
     wf_mat x \<and> wf_mat (param_v self) \<and> ncols x = length (param_w self) \<and> ncols x = nrows (param_v self)"

text \<open>The three functions for \<open>h\<close> of the first notebook cell, by the kind of parameter.\<close>

definition calc_h :: "mat \<Rightarrow> params \<Rightarrow> theta \<Rightarrow> error + vec" where
  "calc_h x self th =
     (case th of
        Theta_b \<Rightarrow> Inr (calc_h_b x)
      | Theta_w i \<Rightarrow> calc_h_w x i
      | Theta_v i k \<Rightarrow> calc_h_v x (param_v self) i k)"

text \<open>
  The invariant of the update loop: the cached \<open>f\<close> holds the scores of the rows under the
  current parameters, and the cached \<open>q\<close> is \<open>x @ v\<close>.
\<close>

definition cache_ok :: "mat \<Rightarrow> params \<Rightarrow> cache \<Rightarrow> bool" where
  "cache_ok x self c \<longleftrightarrow>
     shapes_ok self x \<and> cache_f c = map (row_score self) (rows x)
       \<and> matmul x (param_v self) = Inr (cache_q c)"

section \<open>The Gaussian sampler\<close>

text \<open>\<open>np.diag(d)\<close>, \<open>np.eye(n)\<close>, \<open>m.T\<close> and the sum of two arrays of one shape.\<close>

definition np_diag :: "vec \<Rightarrow> mat" where
  "np_diag d =
     \<lparr>nrows = length d, ncols = length d,
      rows = map (\<lambda>i. map (\<lambda>j. if i = j then d ! i else 0) [0..<length d]) [0..<length d]\<rparr>"

definition eye :: "nat \<Rightarrow> mat" where
  "eye n =
     \<lparr>nrows = n, ncols = n,
      rows = map (\<lambda>i. map (\<lambda>j. if i = j then 1 else 0) [0..<n]) [0..<n]\<rparr>"

definition transpose_mat :: "mat \<Rightarrow> mat" where
  "transpose_mat m =
     \<lparr>nrows = ncols m, ncols = nrows m,
      rows = map (\<lambda>j. map (\<lambda>r. r ! j) (rows m)) [0..<ncols m]\<rparr>"

definition mat_add :: "mat \<Rightarrow> mat \<Rightarrow> error + mat" where
  "mat_add m n =
     (if nrows m = nrows n \<and> ncols m = ncols n
      then Inr (m\<lparr>rows := map2 (map2 (+)) (rows m) (rows n)\<rparr>)
      else Inl ValueError)"

subsection \<open>The random source\<close>

text \<open>
  The generator is replaced by what it hands out: the standard normal variates behind the
  two calls of \<open>rng.normal\<close>, and the deviation from the mean of the vector that
  \<open>rng.multivariate_normal\<close> returns. \<open>rng.normal(loc, scale)\<close> broadcasts its arguments,
  refuses a negative scale and returns \<open>loc + scale * z\<close>;
  \<open>rng.multivariate_normal(mean, cov)\<close> refuses a covariance that is not square or not of
  the length of the mean.
\<close>

record rng =
  normal_u :: "nat \<Rightarrow> real"
  mvn_u :: "nat \<Rightarrow> real"
  normal_v :: "nat \<Rightarrow> real"

definition rng_normal :: "vec \<Rightarrow> vec \<Rightarrow> (nat \<Rightarrow> real) \<Rightarrow> error + vec" where
  "rng_normal loc sc z =
     (if list_ex (\<lambda>s. s < 0) sc then Inl ValueError
      else bindE (np_binop (\<lambda>l s. (l, s)) loc sc) (\<lambda>p.
             Inr (map (\<lambda>i. fst (p ! i) + snd (p ! i) * z i) [0..<length p])))"

definition rng_multivariate_normal :: "vec \<Rightarrow> mat \<Rightarrow> (nat \<Rightarrow> real) \<Rightarrow> error + vec" where
  "rng_multivariate_normal mean cov z =
     (if nrows cov \<noteq> ncols cov \<or> nrows cov \<noteq> length mean then Inl ValueError
      else Inr (map (\<lambda>i. mean ! i + z i) [0..<length mean]))"

subsection \<open>\<open>np.linalg.solve\<close>\<close>

text \<open>
  \<open>np.linalg.solve(a, b)\<close> raises \<open>LinAlgError\<close> when \<open>a\<close> is not square or is singular,
  \<open>ValueError\<close> when \<open>b\<close> has not the length of \<open>a\<close>, and returns the solution otherwise.
  It is LAPACK's elimination with row exchanges; in exact arithmetic this is Gaussian
  elimination, which fails exactly when a column has no entry left to pivot on. A system
  is a list of equations, each a row of coefficients with its right-hand side. The
  elimination pivots on the first equation whose leading coefficient is not zero, removes
  the leading unknown from the other equations, solves those, and substitutes back.
\<close>

definition eliminate :: "vec \<times> real \<Rightarrow> vec \<times> real \<Rightarrow> vec \<times> real" where
  "eliminate pivot eq =
     (case pivot of (r, y) \<Rightarrow> case eq of (r2, y2) \<Rightarrow>
        (map2 (\<lambda>t u. t - (hd r2 / hd r) * u) (tl r2) (tl r), y2 - (hd r2 / hd r) * y))"

primrec gauss :: "nat \<Rightarrow> (vec \<times> real) list \<Rightarrow> vec option" where
  "gauss 0 sys = Some []"
| "gauss (Suc n) sys =
     (case find (\<lambda>eq. hd (fst eq) \<noteq> 0) sys of
        None \<Rightarrow> None
      | Some pivot \<Rightarrow>
          (case gauss n (map (eliminate pivot) (remove1 pivot sys)) of
             None \<Rightarrow> None
           | Some s \<Rightarrow> Some ((snd pivot - dot (tl (fst pivot)) s) / hd (fst pivot) # s)))"

definition linalg_solve :: "mat \<Rightarrow> vec \<Rightarrow> error + vec" where
  "linalg_solve a y =
     (if nrows a \<noteq> ncols a then Inl LinAlgError
      else if length y \<noteq> nrows a then Inl ValueError
      else case gauss (nrows a) (zip (rows a) y) of
             None \<Rightarrow> Inl LinAlgError
           | Some s \<Rightarrow> Inr s)"

subsection \<open>\<open>sample_gaussian_efficient\<close>\<close>

text \<open>
  \<open>Delta\<close> is one-dimensional (the diagonal) or two-dimensional. The matrix of the linear
  system is \<open>Phi @ Delta @ Phi.T + np.eye(D)\<close>.

  For a negative entry \<open>np.sqrt\<close> returns nan, with a warning and no exception, and
  \<open>rng.normal\<close> accepts a scale that is nan. nan is not a real number: \<open>np_sqrt\<close> keeps 0 in
  its place and reports that the array holds nan. The draw \<open>u\<close> then holds nan in the same
  places, and so does every array computed from it. The exceptions raised after the draw
  depend on the shapes and on \<open>Phi\<close> and \<open>Delta\<close> only, so they are found with the
  placeholder; an array that is returned in the end holds nan, which \<open>Sample_nan\<close> records.
\<close>

datatype sampled = Sample vec | Sample_nan

definition np_sqrt :: "vec \<Rightarrow> bool \<times> vec" where
  "np_sqrt d = (list_ex (\<lambda>t. t < 0) d, map (\<lambda>t. if t < 0 then 0 else sqrt t) d)"

definition system_matrix :: "mat \<Rightarrow> mat \<Rightarrow> error + mat" where
  "system_matrix Phi Delta =
     bindE (matmul Phi Delta) (\<lambda>pd.
     bindE (matmul pd (transpose_mat Phi)) (\<lambda>pdp.
       mat_add pdp (eye (nrows Phi))))"

definition sample_u :: "nat \<Rightarrow> ndarray \<Rightarrow> rng \<Rightarrow> error + bool \<times> vec \<times> mat" where
  "sample_u N Delta g =
     (case Delta of
        Arr1 d \<Rightarrow>
          (case np_sqrt d of (nan, sd) \<Rightarrow>
             bindE (rng_normal (replicate N 0) sd (normal_u g)) (\<lambda>u. Inr (nan, u, np_diag d)))
      | Arr2 m \<Rightarrow>
          bindE (rng_multivariate_normal (replicate N 0) m (mvn_u g)) (\<lambda>u. Inr (False, u, m)))"

definition sample_gaussian_efficient :: "mat \<Rightarrow> vec \<Rightarrow> ndarray \<Rightarrow> rng \<Rightarrow> error + sampled" where
  "sample_gaussian_efficient Phi alpha Delta0 g =
     (let D = nrows Phi; N = ncols Phi
      in bindE (sample_u N Delta0 g) (\<lambda>ud. case ud of (nan, u, Delta) \<Rightarrow>
         bindE (matvec Phi u) (\<lambda>phi_u.
         bindE (rng_normal phi_u (replicate D 1) (normal_v g)) (\<lambda>v.
         bindE (system_matrix Phi Delta) (\<lambda>m.
         bindE (np_binop (-) alpha v) (\<lambda>rhs.
         bindE (linalg_solve m rhs) (\<lambda>w.
         bindE (matmul Delta (transpose_mat Phi)) (\<lambda>dp.
         bindE (matvec dp w) (\<lambda>dpw.
         bindE (np_binop (+) u dpw) (\<lambda>theta.
           Inr (if nan then Sample_nan else Sample theta)))))))))))"

text \<open>
  With \<open>Phi\<close> of shape \<open>D \<times> N\<close>, the shapes that do not fit and that no broadcast repairs:
  an \<open>alpha\<close> of a length other than \<open>D\<close> and 1, a one-dimensional \<open>Delta\<close> of a length other
  than \<open>N\<close>, a two-dimensional \<open>Delta\<close> that is not \<open>N \<times> N\<close>.
\<close>

definition shape_mismatch :: "mat \<Rightarrow> vec \<Rightarrow> ndarray \<Rightarrow> bool" where
  "shape_mismatch Phi alpha Delta \<longleftrightarrow>
     (length alpha \<noteq> nrows Phi \<and> length alpha \<noteq> 1)
     \<or> (case Delta of
           Arr1 d \<Rightarrow> length d \<noteq> ncols Phi
         | Arr2 m \<Rightarrow> nrows m \<noteq> ncols Phi \<or> ncols m \<noteq> ncols Phi)"

subsection \<open>Arithmetic of arrays whose shapes fit\<close>

text \<open>
  The values of \<open>x @ v\<close>, \<open>m + n\<close>, \<open>m - n\<close>, \<open>-m\<close> and \<open>x @ w\<close> (a matrix and a vector) when
  the shapes fit: the results of \<open>matmul\<close>, \<open>mat_add\<close>, \<open>mat_sub\<close> and \<open>matvec\<close> above, without
  the test of the shapes, for the formulas of the mean and the covariance.
\<close>

definition mm :: "mat \<Rightarrow> mat \<Rightarrow> mat" where
  "mm x v =
     \<lparr>nrows = nrows x, ncols = ncols v,
      rows = map (\<lambda>r. map (\<lambda>k. dot r (map (\<lambda>vr. vr ! k) (rows v))) [0..<ncols v]) (rows x)\<rparr>"

definition madd :: "mat \<Rightarrow> mat \<Rightarrow> mat" where
  "madd m n = m\<lparr>rows := map2 (map2 (+)) (rows m) (rows n)\<rparr>"

definition msub :: "mat \<Rightarrow> mat \<Rightarrow> mat" where
  "msub m n = m\<lparr>rows := map2 (map2 (-)) (rows m) (rows n)\<rparr>"

definition mneg :: "mat \<Rightarrow> mat" where
  "mneg m = m\<lparr>rows := map (map uminus) (rows m)\<rparr>"

definition mv :: "mat \<Rightarrow> vec \<Rightarrow> vec" where
  "mv x w = map (\<lambda>r. dot r w) (rows x)"

text \<open>\<open>b\<close> is the inverse of the square matrix \<open>a\<close>: both products are the identity.\<close>

definition inverse_of :: "mat \<Rightarrow> mat \<Rightarrow> bool" where
  "inverse_of a b \<longleftrightarrow>
     wf_mat a \<and> wf_mat b \<and> nrows a = ncols a \<and> nrows b = nrows a \<and> ncols b = nrows a
       \<and> mm a b = eye (nrows a) \<and> mm b a = eye (nrows a)"


definition draws_eps :: "nat \<Rightarrow> rng \<Rightarrow> vec" where
  "draws_eps D g = map (normal_v g) [0..<D]"

text \<open>
  The draw \<open>u\<close> for a one-dimensional \<open>Delta\<close>: \<open>rng.normal(np.zeros(N), np.sqrt(Delta))\<close>
  is \<open>sqrt Delta * z\<close> with the standard normal draws \<open>z\<close>.
\<close>

definition draws_u_diag :: "vec \<Rightarrow> rng \<Rightarrow> vec" where
  "draws_u_diag d g = map (\<lambda>i. sqrt (d ! i) * normal_u g i) [0..<length d]"

subsection \<open>Positive definite matrices\<close>

definition quad_form :: "mat \<Rightarrow> vec \<Rightarrow> real" where
  "quad_form m z = dot z (map (\<lambda>r. dot r z) (rows m))"

definition pos_def :: "mat \<Rightarrow> bool" where
  "pos_def m \<longleftrightarrow>
     wf_mat m \<and> nrows m = ncols m
       \<and> (\<forall>z. length z = nrows m \<longrightarrow> z \<noteq> replicate (nrows m) 0 \<longrightarrow> 0 < quad_form m z)"

definition symmetric :: "mat \<Rightarrow> bool" where
  "symmetric m \<longleftrightarrow>
     nrows m = ncols m \<and> (\<forall>i<nrows m. \<forall>j<nrows m. rows m ! i ! j = rows m ! j ! i)"

subsection \<open>Systems of equations, for the proofs\<close>

text \<open>
  A system of \<open>n\<close> equations in \<open>n\<close> unknowns, a vector that solves every equation, and
  rows that only the zero vector annihilates.
\<close>

definition sys_wf :: "nat \<Rightarrow> (vec \<times> real) list \<Rightarrow> bool" where
  "sys_wf n sys \<longleftrightarrow> length sys = n \<and> list_all (\<lambda>eq. length (fst eq) = n) sys"

definition solves :: "(vec \<times> real) list \<Rightarrow> vec \<Rightarrow> bool" where
  "solves sys s \<longleftrightarrow> list_all (\<lambda>eq. dot (fst eq) s = snd eq) sys"

definition nonsingular :: "nat \<Rightarrow> vec list \<Rightarrow> bool" where
  "nonsingular n rs \<longleftrightarrow>
     (\<forall>z. length z = n \<longrightarrow> (\<forall>r\<in>set rs. dot r z = 0) \<longrightarrow> z = replicate n 0)"

text \<open>The transpose applied to a vector: the combination of the rows with the weights \<open>z\<close>.\<close>

definition comb :: "mat \<Rightarrow> vec \<Rightarrow> vec" where
  "comb m z = map (\<lambda>j. \<Sum>d<nrows m. rows m ! d ! j * z ! d) [0..<ncols m]"

text \<open>A row vector times a matrix.\<close>

definition row_times :: "vec \<Rightarrow> mat \<Rightarrow> vec" where
  "row_times r dl = map (\<lambda>l. dot r (map (\<lambda>vr. vr ! l) (rows dl))) [0..<ncols dl]"

section \<open>Example inputs\<close>

definition x0 :: mat where
  "x0 = \<lparr>nrows = 2, ncols = 2, rows = [[1, 2], [3, 4]]\<rparr>"

definition v0 :: mat where
  "v0 = \<lparr>nrows = 2, ncols = 1, rows = [[1], [1]]\<rparr>"

definition q0 :: mat where
  "q0 = \<lparr>nrows = 2, ncols = 1, rows = [[3], [7]]\<rparr>"

definition P1 :: params where
  "P1 = \<lparr>param_b = 1, param_w = [2], param_v = \<lparr>nrows = 1, ncols = 1, rows = [[3]]\<rparr>\<rparr>"

definition P2 :: params where
  "P2 = \<lparr>param_b = 1, param_w = [2, 3], param_v = \<lparr>nrows = 2, ncols = 2, rows = [[1, 2], [3, 4]]\<rparr>\<rparr>"

definition c0 :: cache where
  "c0 = \<lparr>cache_f = [31, 151], cache_q = \<lparr>nrows = 2, ncols = 2, rows = [[7, 10], [15, 22]]\<rparr>\<rparr>"

definition us0 :: "(theta \<times> real) list" where
  "us0 = [(Theta_b, 5), (Theta_w (- 1), 0), (Theta_v 0 1, 7)]"

definition P3 :: params where
  "P3 = \<lparr>param_b = 5, param_w = [2, 0], param_v = \<lparr>nrows = 2, ncols = 2, rows = [[1, 7], [3, 4]]\<rparr>\<rparr>"

definition c3 :: cache where
  "c3 = \<lparr>cache_f = [69, 383], cache_q = \<lparr>nrows = 2, ncols = 2, rows = [[7, 15], [15, 37]]\<rparr>\<rparr>"

definition rng0 :: rng where
  "rng0 = \<lparr>normal_u = (\<lambda>i. 1), mvn_u = (\<lambda>i. 1), normal_v = (\<lambda>i. 2)\<rparr>"

definition Phi1 :: mat where
  "Phi1 = \<lparr>nrows = 1, ncols = 1, rows = [[1]]\<rparr>"

definition Delta0 :: mat where
  "Delta0 = \<lparr>nrows = 2, ncols = 2, rows = [[2, 1], [1, 2]]\<rparr>"

definition M0 :: mat where
  "M0 = \<lparr>nrows = 2, ncols = 2, rows = [[15, 32], [32, 75]]\<rparr>"




section \<open>Basic facts\<close>

lemma bindE_simps [simp]:
  "bindE (Inl e) f = Inl e"
  "bindE (Inr a) f = f a"
  by (simp_all add: bindE_def)

lemma bindE_eq_Inr:
  "bindE m f = Inr y \<longleftrightarrow> (\<exists>a. m = Inr a \<and> f a = Inr y)"
  by (cases m) simp_all

lemma upt_2: "[0..<2] = [0, 1]"
  by (simp add: numeral_2_eq_2)

lemmas ev_predict = predict_def as_batch_def matvec_def matmul_def mat_sq_def mat_sub_def np_binop_def
  scale_def sum_axis1_def dot_def

lemmas ev_sampler = sample_gaussian_efficient_def sample_u_def np_sqrt_def rng_normal_def
  rng_multivariate_normal_def
  system_matrix_def linalg_solve_def eliminate_def np_diag_def eye_def transpose_mat_def mat_add_def
  matmul_def matvec_def np_binop_def rng0_def upt_2 numeral_2_eq_2

lemmas ev = x0_def v0_def q0_def wf_mat_def calc_q_init_def matmul_def dot_def update_q_def calc_dq_def
  item2_def col_def norm_index_def add_col_def set_item2_def scale_def valid_ik_def

lemma norm_index_less: "norm_index n i = Inr j \<Longrightarrow> j < n"
  by (auto simp: norm_index_def split: if_splits)

lemma norm_index_valid: "- int n \<le> i \<Longrightarrow> i < int n \<Longrightarrow> \<exists>j. norm_index n i = Inr j"
  by (auto simp: norm_index_def)

lemma dot_list_update:
  "length r = length c \<Longrightarrow> i < length c \<Longrightarrow> dot r (c[i := a]) = dot r c + r ! i * (a - c ! i)"
proof (induction r c arbitrary: i rule: list_induct2)
  case Nil
  then show ?case by simp
next
  case (Cons x xs y ys)
  then show ?case
    by (cases i) (auto simp: dot_def algebra_simps)
qed

lemma wf_mat_rowD: "wf_mat m \<Longrightarrow> r \<in> set (rows m) \<Longrightarrow> length r = ncols m"
  by (auto simp: wf_mat_def list_all_iff)

lemma wf_mat_nthD: "wf_mat m \<Longrightarrow> i < nrows m \<Longrightarrow> length (rows m ! i) = ncols m"
  by (auto simp: wf_mat_def list_all_length)

lemma wf_mat_length: "wf_mat m \<Longrightarrow> length (rows m) = nrows m"
  by (simp add: wf_mat_def)

lemma wf_set_item2: "wf_mat v \<Longrightarrow> set_item2 v i k a = Inr v' \<Longrightarrow> wf_mat v' \<and> nrows v' = nrows v \<and> ncols v' = ncols v"
  by (auto simp: set_item2_def bindE_eq_Inr wf_mat_def list_all_length nth_list_update
      dest: norm_index_less)

text \<open>Column j of v after the entry (i, k) was replaced.\<close>
lemma col_after_set:
  assumes "wf_mat v" "i < nrows v" "k < ncols v" "j < ncols v"
  shows "map (\<lambda>vr. vr ! j) ((rows v)[i := (rows v ! i)[k := a]])
         = (if j = k then (map (\<lambda>vr. vr ! j) (rows v))[i := a] else map (\<lambda>vr. vr ! j) (rows v))"
proof -
  have len: "length (rows v ! i) = ncols v" using assms by (simp add: wf_mat_nthD)
  have li: "i < length (rows v)" using assms by (simp add: wf_mat_length)
  show ?thesis
  proof (cases "j = k")
    case True
    then show ?thesis using assms len by (simp add: map_update)
  next
    case False
    have "(map (\<lambda>vr. vr ! j) (rows v))[i := rows v ! i ! j] = map (\<lambda>vr. vr ! j) (rows v)"
      using li by (metis list_update_id nth_map)
    then show ?thesis using False by (simp add: map_update)
  qed
qed

lemma matmul_row_after_set:
  assumes "wf_mat v" "i < nrows v" "k < ncols v" "length r = nrows v"
  shows "map (\<lambda>j. dot r (map (\<lambda>vr. vr ! j) ((rows v)[i := (rows v ! i)[k := a]]))) [0..<ncols v]
         = (map (\<lambda>j. dot r (map (\<lambda>vr. vr ! j) (rows v))) [0..<ncols v])
             [k := dot r (map (\<lambda>vr. vr ! k) (rows v)) + (a - rows v ! i ! k) * r ! i]"
proof (rule nth_equalityI)
  show "length (map (\<lambda>j. dot r (map (\<lambda>vr. vr ! j) ((rows v)[i := (rows v ! i)[k := a]]))) [0..<ncols v])
      = length ((map (\<lambda>j. dot r (map (\<lambda>vr. vr ! j) (rows v))) [0..<ncols v])
             [k := dot r (map (\<lambda>vr. vr ! k) (rows v)) + (a - rows v ! i ! k) * r ! i])"
    by simp
next
  fix j
  assume "j < length (map (\<lambda>j. dot r (map (\<lambda>vr. vr ! j) ((rows v)[i := (rows v ! i)[k := a]]))) [0..<ncols v])"
  then have j: "j < ncols v" by simp
  have li: "i < length (rows v)" "length r = length (rows v)" using assms by (simp_all add: wf_mat_length)
  show "map (\<lambda>j. dot r (map (\<lambda>vr. vr ! j) ((rows v)[i := (rows v ! i)[k := a]]))) [0..<ncols v] ! j
      = (map (\<lambda>j. dot r (map (\<lambda>vr. vr ! j) (rows v))) [0..<ncols v])
             [k := dot r (map (\<lambda>vr. vr ! k) (rows v)) + (a - rows v ! i ! k) * r ! i] ! j"
    using j assms li
    by (simp add: col_after_set nth_list_update dot_list_update algebra_simps)
qed

lemma update_q_inv:
  assumes x: "wf_mat x" and v: "wf_mat v" and q: "matmul x v = Inr q"
    and u: "update_q x (v, q) (i, k, a) = Inr (v', q')"
  shows "matmul x v' = Inr q' \<and> wf_mat v' \<and> nrows v' = nrows v \<and> ncols v' = ncols v"
proof -
  from q have sh: "ncols x = nrows v"
    and qv: "q = \<lparr>nrows = nrows x, ncols = ncols v,
                rows = map (\<lambda>r. map (\<lambda>k. dot r (map (\<lambda>vr. vr ! k) (rows v))) [0..<ncols v]) (rows x)\<rparr>"
    by (auto simp: matmul_def split: if_splits)
  from u obtain dq where dq: "calc_dq x a v i k = Inr dq"
    and aq: "add_col q k dq = Inr q'" and sv: "set_item2 v i k a = Inr v'"
    by (auto simp: update_q_def bindE_eq_Inr)
  from sv obtain i' k' where i': "norm_index (nrows v) i = Inr i'" and k': "norm_index (ncols v) k = Inr k'"
    and v': "v' = v\<lparr>rows := (rows v)[i' := (rows v ! i')[k' := a]]\<rparr>"
    by (auto simp: set_item2_def bindE_eq_Inr)
  have il: "i' < nrows v" and kl: "k' < ncols v"
    using i' k' by (auto dest: norm_index_less)
  from dq i' k' sh have dqv: "dq = map (\<lambda>r. (a - rows v ! i' ! k') * r ! i') (rows x)"
    by (auto simp: calc_dq_def item2_def col_def bindE_eq_Inr scale_def)
  have ldq: "length dq = nrows q" using dqv qv x by (simp add: wf_mat_length)
  from aq k' ldq have q': "q' = q\<lparr>rows := map2 (\<lambda>r a. r[k' := r ! k' + a]) (rows q) dq\<rparr>"
    by (auto simp: add_col_def qv bindE_eq_Inr)
  have rows_eq: "map (\<lambda>r. map (\<lambda>j. dot r (map (\<lambda>vr. vr ! j) (rows v'))) [0..<ncols v]) (rows x)
        = map2 (\<lambda>r a. r[k' := r ! k' + a]) (rows q) dq"
    unfolding qv dqv v' using kl
    by (auto simp: map2_map_map matmul_row_after_set [OF v il kl] wf_mat_rowD [OF x] sh)
  have "matmul x v' = Inr q'"
    using sh rows_eq by (simp add: matmul_def v' q' qv)
  moreover have "wf_mat v' \<and> nrows v' = nrows v \<and> ncols v' = ncols v"
    using wf_set_item2 [OF v sv] .
  ultimately show ?thesis by simp
qed

lemma update_q_total:
  assumes x: "wf_mat x" and v: "wf_mat v" and q: "matmul x v = Inr q"
    and ok: "valid_ik v (i, k, a)"
  shows "\<exists>v' q'. update_q x (v, q) (i, k, a) = Inr (v', q')"
proof -
  from q have sh: "ncols x = nrows v"
    and qv: "q = \<lparr>nrows = nrows x, ncols = ncols v,
                rows = map (\<lambda>r. map (\<lambda>k. dot r (map (\<lambda>vr. vr ! k) (rows v))) [0..<ncols v]) (rows x)\<rparr>"
    by (auto simp: matmul_def split: if_splits)
  from ok obtain i' k' where i': "norm_index (nrows v) i = Inr i'" and k': "norm_index (ncols v) k = Inr k'"
    using norm_index_valid [of "nrows v" i] norm_index_valid [of "ncols v" k]
    by (auto simp: valid_ik_def)
  show ?thesis
    using i' k' sh x
    by (simp add: update_q_def calc_dq_def item2_def col_def add_col_def set_item2_def qv scale_def wf_mat_length)
qed

lemma update_q_all_Cons_Inr:
  "update_q_all x s (u # us) = Inr t \<longleftrightarrow> (\<exists>s1. update_q x s u = Inr s1 \<and> update_q_all x s1 us = Inr t)"
  by (simp add: bindE_eq_Inr)

lemma q_consistency_inv:
  assumes "wf_mat x"
  shows "wf_mat v \<Longrightarrow> calc_q_init x v = Inr q \<Longrightarrow> update_q_all x (v, q) us = Inr (v', q')
         \<Longrightarrow> calc_q_init x v' = Inr q'"
proof (induction us arbitrary: v q)
  case Nil
  then show ?case by simp
next
  case (Cons u us)
  obtain i k a where u: "u = (i, k, a)" by (cases u) auto
  from Cons.prems(3) obtain v1 q1 where s1: "update_q x (v, q) (i, k, a) = Inr (v1, q1)"
    and r: "update_q_all x (v1, q1) us = Inr (v', q')"
    unfolding update_q_all_Cons_Inr u by auto
  from Cons.prems(2) have q: "matmul x v = Inr q" by (simp add: calc_q_init_def)
  have "matmul x v1 = Inr q1 \<and> wf_mat v1 \<and> nrows v1 = nrows v \<and> ncols v1 = ncols v"
    by (rule update_q_inv [OF assms Cons.prems(1) q s1])
  then have "wf_mat v1" and "calc_q_init x v1 = Inr q1" by (simp_all add: calc_q_init_def)
  then show ?case using r by (rule Cons.IH)
qed

lemma q_consistency_total:
  assumes "wf_mat x"
  shows "wf_mat v \<Longrightarrow> calc_q_init x v = Inr q \<Longrightarrow> list_all (valid_ik v) us
         \<Longrightarrow> \<exists>v' q'. update_q_all x (v, q) us = Inr (v', q')"
proof (induction us arbitrary: v q)
  case Nil
  then show ?case by simp
next
  case (Cons u us)
  obtain i k a where u: "u = (i, k, a)" by (cases u) auto
  from Cons.prems(3) have ok: "valid_ik v (i, k, a)" and rest: "list_all (valid_ik v) us"
    by (simp_all add: u)
  from Cons.prems(2) have q: "matmul x v = Inr q" by (simp add: calc_q_init_def)
  from update_q_total [OF assms Cons.prems(1) q ok]
  obtain v1 q1 where s1: "update_q x (v, q) (i, k, a) = Inr (v1, q1)" by auto
  have st: "matmul x v1 = Inr q1 \<and> wf_mat v1 \<and> nrows v1 = nrows v \<and> ncols v1 = ncols v"
    by (rule update_q_inv [OF assms Cons.prems(1) q s1])
  then have w1: "wf_mat v1" and q1: "calc_q_init x v1 = Inr q1" by (simp_all add: calc_q_init_def)
  from st have "valid_ik v1 = valid_ik v" by (simp add: fun_eq_iff valid_ik_def)
  with rest have "list_all (valid_ik v1) us" by simp
  from Cons.IH [OF w1 q1 this] obtain v' q' where "update_q_all x (v1, q1) us = Inr (v', q')"
    by auto
  with s1 show ?case by (simp add: u)
qed

section \<open>The cache \<open>q\<close> stays equal to \<open>x @ v\<close>\<close>

text \<open>
  Claim C2. Let \<open>x\<close> be a batch and \<open>v\<close> a factor matrix, and let \<open>q\<close> be initialised by
  \<open>calc_q_init\<close>. Run any list of single-entry updates of \<open>v\<close>, each one adding
  \<open>calc_dq\<close> to column \<open>k\<close> of \<open>q\<close> before the new entry is stored in \<open>v\<close>. Whenever the
  run returns, \<open>q\<close> is \<open>x @ v\<close> for the final \<open>v\<close>, as arrays; and the run does return
  when every update names an entry that exists.
\<close>

theorem q_consistency:
  assumes "wf_mat x" and "wf_mat v" and "calc_q_init x v = Inr q"
  shows "(\<forall>v' q'. update_q_all x (v, q) us = Inr (v', q') \<longrightarrow> calc_q_init x v' = Inr q')
       \<and> (list_all (valid_ik v) us \<longrightarrow> (\<exists>v' q'. update_q_all x (v, q) us = Inr (v', q')))"
  using q_consistency_inv [OF assms] q_consistency_total [OF assms] by blast

theorem q_consistency_witness:
  "wf_mat x0 \<and> wf_mat v0 \<and> calc_q_init x0 v0 = Inr q0 \<and> 
   list_all (valid_ik v0) [(0, 0, 5), (-1, 0, 2)] \<and>
   update_q_all x0 (v0, q0) [(0, 0, 5), (-1, 0, 2)]
     = Inr (\<lparr>nrows = 2, ncols = 1, rows = [[5], [2]]\<rparr>, \<lparr>nrows = 2, ncols = 1, rows = [[9], [23]]\<rparr>) \<and>
   calc_q_init x0 \<lparr>nrows = 2, ncols = 1, rows = [[5], [2]]\<rparr> = Inr \<lparr>nrows = 2, ncols = 1, rows = [[9], [23]]\<rparr>"
proof -
  have h: "wf_mat x0" "wf_mat v0" "calc_q_init x0 v0 = Inr q0"
    by (simp_all add: ev)
  have r: "update_q_all x0 (v0, q0) [(0, 0, 5), (-1, 0, 2)]
     = Inr (\<lparr>nrows = 2, ncols = 1, rows = [[5], [2]]\<rparr>, \<lparr>nrows = 2, ncols = 1, rows = [[9], [23]]\<rparr>)"
    by (simp add: ev)
  have ok: "list_all (valid_ik v0) [(0, 0, 5), (-1, 0, 2)]" by (simp add: ev)
  from q_consistency [OF h, of "[(0, 0, 5), (-1, 0, 2)]"] r h ok show ?thesis by simp
qed

lemma col_matmul:
  assumes "matmul x v = Inr q" "wf_mat v"
  shows "col q k = bindE (col v k) (matvec x)"
proof (cases "norm_index (ncols v) k")
  case (Inl e)
  with assms show ?thesis by (auto simp: col_def matmul_def split: if_splits)
next
  case (Inr j)
  then have "j < ncols v" by (rule norm_index_less)
  with assms Inr show ?thesis
    by (auto simp: col_def matmul_def matvec_def wf_mat_def split: if_splits)
qed

lemma calc_h_v_fast_naive:
  "wf_mat v \<Longrightarrow> matmul x v = Inr q \<Longrightarrow> calc_h_v_fast x v q i k = calc_h_v x v i k"
  unfolding calc_h_v_fast_def calc_h_v_def
  by (cases "col x i"; cases "col v k") (simp_all add: col_matmul)

section \<open>The derivative from the cache\<close>

text \<open>
  Claim C7. When \<open>q\<close> is \<open>x @ v\<close>, the derivative \<open>calc_h_v_fast\<close> computed from the cached
  \<open>q\<close> is the derivative \<open>calc_h_v\<close> computed from \<open>x\<close> and \<open>v\<close> alone: the same array for
  indices that exist, the same exception otherwise.
\<close>

theorem calc_h_v_fast_eq:
  "wf_mat v \<Longrightarrow> calc_q_init x v = Inr q \<Longrightarrow> calc_h_v_fast x v q i k = calc_h_v x v i k"
  by (simp add: calc_q_init_def calc_h_v_fast_naive)

theorem calc_h_v_fast_eq_witness:
  "wf_mat v0 \<and> calc_q_init x0 v0 = Inr q0 \<and> calc_h_v_fast x0 v0 q0 1 0 = Inr [2, 12]
   \<and> calc_h_v x0 v0 1 0 = Inr [2, 12]"
proof -
  have h: "wf_mat v0" "calc_q_init x0 v0 = Inr q0" by (simp_all add: ev)
  have "calc_h_v_fast x0 v0 q0 1 0 = Inr [2, 12]"
    by (simp add: ev calc_h_v_fast_def np_binop_def)
  with calc_h_v_fast_eq [OF h, of 1 0] h show ?thesis by simp
qed

lemma scale_zero: "scale 0 a = replicate (length a) 0"
  by (induction a) (simp_all add: scale_def)

lemma map2_add_zero: "length d = length r \<Longrightarrow> map2 (+) r (map (\<lambda>t. 0 * t) d) = (r :: real list)"
  by (induction d r rule: list_induct2) simp_all

lemma add_col_zero:
  assumes "wf_mat q" "norm_index (ncols q) k = Inr k'"
  shows "add_col q k (replicate (nrows q) 0) = Inr q"
proof -
  have "map2 (\<lambda>r a. r[k' := r ! k' + a]) rs (replicate (length rs) (0::real)) = rs" for rs :: "real list list"
    by (induction rs) simp_all
  from this [of "rows q"] assms show ?thesis
    by (simp add: add_col_def wf_mat_length)
qed

section \<open>An update that changes nothing\<close>

text \<open>
  Claim C10. When the new value of a parameter is its old value, the increment \<open>calc_df\<close> is
  the zero vector, and so is \<open>calc_dq\<close> called with \<open>v[i, k]\<close> as the new value; adding them
  leaves the cached \<open>f\<close> and the cached \<open>q\<close> as they are.
\<close>

theorem unchanged_value_is_identity:
  "calc_df h p p = replicate (length h) 0
   \<and> (item2 v i k = Inr vik \<and> col x i = Inr xi \<longrightarrow> calc_dq x vik v i k = Inr (replicate (length xi) 0))
   \<and> (length f = length h \<longrightarrow> np_binop (+) f (calc_df h p p) = Inr f)
   \<and> (wf_mat q \<and> - int (ncols q) \<le> k \<and> k < int (ncols q) \<longrightarrow> add_col q k (replicate (nrows q) 0) = Inr q)"
proof (intro conjI impI)
  show "calc_df h p p = replicate (length h) 0"
    by (simp add: calc_df_def scale_zero)
  show "calc_dq x vik v i k = Inr (replicate (length xi) 0)"
    if "item2 v i k = Inr vik \<and> col x i = Inr xi"
    using that by (simp add: calc_dq_def scale_zero)
  show "np_binop (+) f (calc_df h p p) = Inr f" if "length f = length h"
    using that map2_add_zero [of h f] by (simp add: np_binop_def calc_df_def scale_def)
  show "add_col q k (replicate (nrows q) 0) = Inr q"
    if "wf_mat q \<and> - int (ncols q) \<le> k \<and> k < int (ncols q)"
  proof -
    from that obtain k' where "norm_index (ncols q) k = Inr k'"
      using norm_index_valid [of "ncols q" k] by auto
    with that show ?thesis by (simp add: add_col_zero)
  qed
qed

theorem unchanged_value_is_identity_witness:
  "calc_df [1, 2] 7 7 = [0, 0]
   \<and> item2 v0 0 0 = Inr 1 \<and> col x0 0 = Inr [1, 3] \<and> calc_dq x0 1 v0 0 0 = Inr [0, 0]
   \<and> np_binop (+) [5, 6] (calc_df [1, 2] 7 7) = Inr [5, 6]
   \<and> wf_mat q0 \<and> add_col q0 0 [0, 0] = Inr q0"
proof -
  have h: "item2 v0 0 0 = Inr 1 \<and> col x0 0 = Inr [1, 3]" "length [5, 6 :: real] = length [1, 2 :: real]"
    "wf_mat q0 \<and> - int (ncols q0) \<le> 0 \<and> 0 < int (ncols q0)"
    by (simp_all add: ev)
  have n: "replicate (nrows q0) (0::real) = [0, 0]" "replicate (length [1, 3 :: real]) (0::real) = [0, 0]"
    "replicate (length [1, 2 :: real]) (0::real) = [0, 0]"
    by (simp_all add: q0_def numeral_2_eq_2)
  note t = unchanged_value_is_identity [of "[1, 2]" 7 v0 0 0 1 x0 "[1, 3]" "[5, 6]" q0]
  from t have a: "calc_df [1, 2] 7 7 = [0, 0]" by (simp add: n)
  from t h have b: "calc_dq x0 1 v0 0 0 = Inr [0, 0]" by (simp add: n)
  from t h have c: "np_binop (+) [5, 6] (calc_df [1, 2] 7 7) = Inr [5, 6]" by blast
  from t h have d: "add_col q0 0 [0, 0] = Inr q0" by (simp add: n)
  from a b c d h show ?thesis by simp
qed

lemma sum_list_upt: "sum_list (map f [0..<n]) = (\<Sum>k<n. f k)" for f :: "nat \<Rightarrow> real"
  by (simp add: interv_sum_list_conv_sum_set_nat atLeast0LessThan)

lemma predict_rows:
  assumes "ncols x = length (param_w self)" "ncols x = nrows (param_v self)"
  shows "predict self (Arr2 x) =
           (if length (rows x) = 1 then Inr (Scalar (row_score self (rows x ! 0)))
            else Inr (Vector (map (row_score self) (rows x))))"
proof -
  define w where "w = param_w self"
  define v where "v = param_v self"
  define L where "L = map (\<lambda>r. dot r w) (rows x)"
  define XV where "XV = \<lparr>nrows = nrows x, ncols = ncols v,
      rows = map (\<lambda>r. map (\<lambda>k. dot r (map (\<lambda>vr. vr ! k) (rows v))) [0..<ncols v]) (rows x)\<rparr>"
  define X2V2 where "X2V2 = \<lparr>nrows = nrows x, ncols = ncols v,
      rows = map (\<lambda>r. map (\<lambda>k. dot (map (\<lambda>t. t ^ 2) r) (map (\<lambda>vr. vr ! k) (map (map (\<lambda>t. t ^ 2)) (rows v))))
                  [0..<ncols v]) (rows x)\<rparr>"
  define Dm where "Dm = \<lparr>nrows = nrows x, ncols = ncols v,
      rows = map (\<lambda>r. map (\<lambda>k. (dot r (map (\<lambda>vr. vr ! k) (rows v))) ^ 2
                 - dot (map (\<lambda>t. t ^ 2) r) (map (\<lambda>vr. vr ! k) (map (map (\<lambda>t. t ^ 2)) (rows v))))
                  [0..<ncols v]) (rows x)\<rparr>"
  have 1: "matvec x w = Inr L"
    using assms by (simp add: matvec_def L_def w_def)
  have 2: "matmul x v = Inr XV"
    using assms by (simp add: matmul_def XV_def v_def)
  have 3: "matmul (mat_sq x) (mat_sq v) = Inr X2V2"
    using assms by (simp add: matmul_def mat_sq_def X2V2_def v_def o_def)
  have 4: "mat_sub (mat_sq XV) X2V2 = Inr Dm"
    by (simp add: mat_sub_def mat_sq_def XV_def X2V2_def Dm_def map2_map_map o_def)
  have 5: "np_binop (+) (map (\<lambda>t. param_b self + t) L) (scale 0.5 (sum_axis1 Dm))
            = Inr (map (row_score self) (rows x))"
    by (simp add: np_binop_def L_def Dm_def scale_def sum_axis1_def map2_map_map o_def
        row_score_def sum_list_upt w_def v_def)
  have "predict self (Arr2 x) =
      (if length (map (row_score self) (rows x)) = 1
       then Inr (Scalar (map (row_score self) (rows x) ! 0))
       else Inr (Vector (map (row_score self) (rows x))))"
    unfolding predict_def Let_def as_batch_def ndarray.case
      w_def [symmetric] v_def [symmetric] 1 2 3 4 5 bindE_simps ..
  then show ?thesis by (auto simp: length_Suc_conv)
qed

lemma predict_row:
  assumes "length xs = length (param_w self)" "length xs = nrows (param_v self)"
  shows "predict self (Arr1 xs) = Inr (Scalar (row_score self xs))"
proof -
  have "predict self (Arr1 xs) = predict self (Arr2 \<lparr>nrows = 1, ncols = length xs, rows = [xs]\<rparr>)"
    by (simp add: predict_def as_batch_def)
  also have "\<dots> = Inr (Scalar (row_score self xs))"
    using assms by (subst predict_rows) simp_all
  finally show ?thesis .
qed

section \<open>The shape of the result of \<open>predict\<close>\<close>

text \<open>
  Claim C9, as stated, fails for a two-dimensional batch with a single row: \<open>predict\<close>
  tests the length of the result, not the dimension of the input, and returns a float.
\<close>

theorem predict_single_row_batch_counterexample:
  "predict P1 (Arr2 \<lparr>nrows = 1, ncols = 1, rows = [[5]]\<rparr>) = Inr (Scalar 11)"
  by (simp add: P1_def ev_predict)

text \<open>
  Claim C9, amended. For a single row (an \<open>N\<close>-vector) \<open>predict\<close> returns a float. For a
  batch of shape \<open>D \<times> N\<close> it returns an array of length \<open>D\<close> when \<open>D \<noteq> 1\<close>, and a float
  when \<open>D = 1\<close>.
\<close>

theorem predict_result_shape:
  "(length xs = length (param_w self) \<and> length xs = nrows (param_v self)
      \<longrightarrow> (\<exists>r. predict self (Arr1 xs) = Inr (Scalar r)))
   \<and> (wf_mat x \<and> ncols x = length (param_w self) \<and> ncols x = nrows (param_v self)
      \<longrightarrow> (if nrows x = 1 then \<exists>r. predict self (Arr2 x) = Inr (Scalar r)
           else \<exists>ys. predict self (Arr2 x) = Inr (Vector ys) \<and> length ys = nrows x))"
  by (auto simp: predict_row predict_rows wf_mat_length)

theorem predict_result_shape_witness:
  "length [5, 7 :: real] = length (param_w P2) \<and> length [5, 7 :: real] = nrows (param_v P2)
   \<and> wf_mat x0 \<and> ncols x0 = length (param_w P2) \<and> ncols x0 = nrows (param_v P2)
   \<and> (\<exists>r. predict P2 (Arr1 [5, 7]) = Inr (Scalar r))
   \<and> nrows x0 \<noteq> 1
   \<and> (\<exists>ys. predict P2 (Arr2 x0) = Inr (Vector ys) \<and> length ys = nrows x0)"
proof -
  have h: "length [5, 7 :: real] = length (param_w P2) \<and> length [5, 7 :: real] = nrows (param_v P2)"
    "wf_mat x0 \<and> ncols x0 = length (param_w P2) \<and> ncols x0 = nrows (param_v P2)"
    "nrows x0 \<noteq> 1"
    by (simp_all add: P2_def x0_def wf_mat_def)
  from predict_result_shape [of "[5, 7]" P2 x0] h show ?thesis by simp
qed

section \<open>\<open>predict\<close> computes the factorization machine\<close>

lemma dot_sum: "length a = length c \<Longrightarrow> dot a c = (\<Sum>i<length a. a ! i * c ! i)"
proof (induction a c rule: list_induct2)
  case Nil
  then show ?case by (simp add: dot_def)
next
  case (Cons x xs y ys)
  have "(\<Sum>i<Suc (length xs). (x # xs) ! i * (y # ys) ! i) = x * y + (\<Sum>i<length xs. xs ! i * ys ! i)"
    by (subst sum.lessThan_Suc_shift) simp
  with Cons show ?case by (simp add: dot_def)
qed

lemma square_sum:
  fixes a :: "nat \<Rightarrow> real"
  shows "(\<Sum>i<n. a i) ^ 2 = (\<Sum>i<n. (a i) ^ 2) + 2 * (\<Sum>j<n. \<Sum>i<j. a i * a j)"
proof (induction n)
  case 0
  then show ?case by simp
next
  case (Suc n)
  have e: "(\<Sum>i<n. a i) * a n = (\<Sum>i<n. a i * a n)"
    by (simp add: sum_distrib_right)
  have "(\<Sum>i<Suc n. a i) ^ 2 = (\<Sum>i<n. a i) ^ 2 + (a n) ^ 2 + 2 * ((\<Sum>i<n. a i) * a n)"
    by (simp add: power2_sum)
  then show ?case unfolding e Suc by simp
qed

lemma col_nth: "wf_mat v \<Longrightarrow> i < nrows v \<Longrightarrow> map (\<lambda>vr. vr ! k) (rows v) ! i = rows v ! i ! k"
  by (simp add: wf_mat_length)

lemma col_sq:
  assumes "wf_mat v" "k < ncols v"
  shows "map (\<lambda>vr. vr ! k) (map (map (\<lambda>t. t ^ 2)) (rows v)) = map (\<lambda>t. t ^ 2) (map (\<lambda>vr. vr ! k) (rows v))"
  using assms by (auto simp: wf_mat_rowD)

lemma inter_term_pairwise:
  assumes v: "wf_mat v" and k: "k < ncols v" and r: "length r = nrows v"
  shows "(dot r (map (\<lambda>vr. vr ! k) (rows v))) ^ 2
           - dot (map (\<lambda>t. t ^ 2) r) (map (\<lambda>vr. vr ! k) (map (map (\<lambda>t. t ^ 2)) (rows v)))
         = 2 * (\<Sum>j<length r. \<Sum>i<j. rows v ! i ! k * rows v ! j ! k * r ! i * r ! j)"
proof -
  have len: "length r = length (rows v)" using v r by (simp add: wf_mat_length)
  have d1: "dot r (map (\<lambda>vr. vr ! k) (rows v)) = (\<Sum>i<length r. r ! i * rows v ! i ! k)"
    using len by (simp add: dot_sum)
  have d2: "dot (map (\<lambda>t. t ^ 2) r) (map (\<lambda>vr. vr ! k) (map (map (\<lambda>t. t ^ 2)) (rows v)))
          = (\<Sum>i<length r. (r ! i * rows v ! i ! k) ^ 2)"
    unfolding col_sq [OF v k] using len by (simp add: dot_sum power_mult_distrib)
  have "(\<Sum>j<length r. \<Sum>i<j. (r ! i * rows v ! i ! k) * (r ! j * rows v ! j ! k))
      = (\<Sum>j<length r. \<Sum>i<j. rows v ! i ! k * rows v ! j ! k * r ! i * r ! j)"
    by (simp add: mult_ac)
  then show ?thesis
    unfolding d1 d2 square_sum [of "\<lambda>i. r ! i * rows v ! i ! k"] by simp
qed

lemma row_score_pairwise:
  assumes v: "wf_mat (param_v self)" and w: "length r = length (param_w self)"
    and n: "length r = nrows (param_v self)"
  shows "row_score self r = fm_pairwise self r"
proof -
  let ?v = "param_v self"
  have lin: "dot r (param_w self) = (\<Sum>i<length r. param_w self ! i * r ! i)"
    using w by (simp add: dot_sum mult.commute)
  have "(\<Sum>k<ncols ?v. (dot r (map (\<lambda>vr. vr ! k) (rows ?v))) ^ 2
           - dot (map (\<lambda>t. t ^ 2) r) (map (\<lambda>vr. vr ! k) (map (map (\<lambda>t. t ^ 2)) (rows ?v))))
      = (\<Sum>k<ncols ?v. 2 * (\<Sum>j<length r. \<Sum>i<j. rows ?v ! i ! k * rows ?v ! j ! k * r ! i * r ! j))"
    by (rule sum.cong [OF refl]) (rule inter_term_pairwise [OF v _ n], simp)
  also have "\<dots> = 2 * (\<Sum>k<ncols ?v. \<Sum>j<length r. \<Sum>i<j. rows ?v ! i ! k * rows ?v ! j ! k * r ! i * r ! j)"
    by (simp add: sum_distrib_left)
  also have "(\<Sum>k<ncols ?v. \<Sum>j<length r. \<Sum>i<j. rows ?v ! i ! k * rows ?v ! j ! k * r ! i * r ! j)
      = (\<Sum>j<length r. \<Sum>k<ncols ?v. \<Sum>i<j. rows ?v ! i ! k * rows ?v ! j ! k * r ! i * r ! j)"
    by (rule sum.swap)
  also have "\<dots> = (\<Sum>j<length r. \<Sum>i<j. \<Sum>k<ncols ?v. rows ?v ! i ! k * rows ?v ! j ! k * r ! i * r ! j)"
    by (rule sum.cong [OF refl]) (rule sum.swap)
  finally show ?thesis
    by (simp add: row_score_def fm_pairwise_def Let_def lin)
qed

text \<open>
  Claim C4. For a row \<open>x\<close> of length \<open>N\<close>, with \<open>w\<close> of length \<open>N\<close> and \<open>v\<close> of shape
  \<open>N \<times> K\<close>, \<open>predict\<close> returns the score of the defining formula: bias, linear term and the
  sum over the pairs \<open>i < j\<close> and the factors \<open>k\<close> of \<open>v[i, k] * v[j, k] * x[i] * x[j]\<close>.
\<close>

theorem predict_is_pairwise:
  assumes "wf_mat (param_v self)" and "length xs = length (param_w self)"
    and "length xs = nrows (param_v self)"
  shows "predict self (Arr1 xs) = Inr (Scalar (fm_pairwise self xs))"
  using assms by (simp add: predict_row row_score_pairwise)

theorem predict_is_pairwise_witness:
  "wf_mat (param_v P2) \<and> length [5, 7 :: real] = length (param_w P2)
   \<and> length [5, 7 :: real] = nrows (param_v P2)
   \<and> fm_pairwise P2 [5, 7] = 417
   \<and> predict P2 (Arr1 [5, 7]) = Inr (Scalar 417)"
proof -
  have h: "wf_mat (param_v P2)" "length [5, 7 :: real] = length (param_w P2)"
    "length [5, 7 :: real] = nrows (param_v P2)"
    by (simp_all add: P2_def wf_mat_def)
  have v: "fm_pairwise P2 [5, 7] = 417"
    by (simp add: fm_pairwise_def P2_def numeral_2_eq_2)
  from predict_is_pairwise [OF h] v h show ?thesis by simp
qed

section \<open>The prediction is affine in each single parameter\<close>

lemma row_score_b: "row_score (self\<lparr>param_b := a\<rparr>) r = row_score self r + (a - param_b self) * 1"
  by (simp add: row_score_def)

lemma row_score_w:
  assumes "i < length (param_w self)" "length r = length (param_w self)"
  shows "row_score (self\<lparr>param_w := (param_w self)[i := a]\<rparr>) r
         = row_score self r + (a - param_w self ! i) * (r ! i)"
  using assms by (simp add: row_score_def dot_list_update algebra_simps)

lemma inter_term_after_set:
  assumes v: "wf_mat v" and i: "i < nrows v" and k: "k < ncols v" and r: "length r = nrows v"
    and v': "v' = v\<lparr>rows := (rows v)[i := (rows v ! i)[k := a]]\<rparr>"
    and j: "j < ncols v"
  shows "(dot r (map (\<lambda>vr. vr ! j) (rows v'))) ^ 2
           - dot (map (\<lambda>t. t ^ 2) r) (map (\<lambda>vr. vr ! j) (map (map (\<lambda>t. t ^ 2)) (rows v')))
       = (dot r (map (\<lambda>vr. vr ! j) (rows v))) ^ 2
           - dot (map (\<lambda>t. t ^ 2) r) (map (\<lambda>vr. vr ! j) (map (map (\<lambda>t. t ^ 2)) (rows v)))
         + (if j = k then 2 * ((a - rows v ! i ! k)
               * (r ! i * (dot r (map (\<lambda>vr. vr ! k) (rows v)) - r ! i * rows v ! i ! k))) else 0)"
proof -
  have wv': "wf_mat v'" "ncols v' = ncols v"
    using v i k by (auto simp: v' wf_mat_def list_all_length nth_list_update)
  have len: "length r = length (rows v)" "i < length (rows v)"
    using v r i by (simp_all add: wf_mat_length)
  have cj: "map (\<lambda>vr. vr ! j) (rows v')
         = (if j = k then (map (\<lambda>vr. vr ! j) (rows v))[i := a] else map (\<lambda>vr. vr ! j) (rows v))"
    unfolding v' using col_after_set [OF v i k j] by simp
  have sq': "map (\<lambda>vr. vr ! j) (map (map (\<lambda>t. t ^ 2)) (rows v')) = map (\<lambda>t. t ^ 2) (map (\<lambda>vr. vr ! j) (rows v'))"
    using col_sq [OF wv'(1)] j wv'(2) by simp
  have sq: "map (\<lambda>vr. vr ! j) (map (map (\<lambda>t. t ^ 2)) (rows v)) = map (\<lambda>t. t ^ 2) (map (\<lambda>vr. vr ! j) (rows v))"
    using col_sq [OF v j] .
  show ?thesis
  proof (cases "j = k")
    case False
    have A: "map (\<lambda>vr. vr ! j) (rows v') = map (\<lambda>vr. vr ! j) (rows v)"
      using cj False by simp
    have B: "map (\<lambda>vr. vr ! j) (map (map (\<lambda>t. t ^ 2)) (rows v'))
           = map (\<lambda>vr. vr ! j) (map (map (\<lambda>t. t ^ 2)) (rows v))"
      unfolding sq' sq A ..
    show ?thesis unfolding A B using False by simp
  next
    case True
    have d1: "dot r ((map (\<lambda>vr. vr ! k) (rows v))[i := a])
            = dot r (map (\<lambda>vr. vr ! k) (rows v)) + r ! i * (a - rows v ! i ! k)"
      using len by (simp add: dot_list_update)
    have d2: "dot (map (\<lambda>t. t ^ 2) r) (map (\<lambda>t. t ^ 2) ((map (\<lambda>vr. vr ! k) (rows v))[i := a]))
            = dot (map (\<lambda>t. t ^ 2) r) (map (\<lambda>t. t ^ 2) (map (\<lambda>vr. vr ! k) (rows v)))
              + (r ! i) ^ 2 * (a ^ 2 - (rows v ! i ! k) ^ 2)"
      using len by (simp add: map_update dot_list_update)
    have A: "dot r (map (\<lambda>vr. vr ! j) (rows v'))
           = dot r (map (\<lambda>vr. vr ! j) (rows v)) + r ! i * (a - rows v ! i ! k)"
      using cj True d1 by simp
    have B: "dot (map (\<lambda>t. t ^ 2) r) (map (\<lambda>vr. vr ! j) (map (map (\<lambda>t. t ^ 2)) (rows v')))
           = dot (map (\<lambda>t. t ^ 2) r) (map (\<lambda>vr. vr ! j) (map (map (\<lambda>t. t ^ 2)) (rows v)))
              + (r ! i) ^ 2 * (a ^ 2 - (rows v ! i ! k) ^ 2)"
      unfolding sq' sq using cj True d2 by simp
    show ?thesis unfolding A B using True
      by (simp add: power2_eq_square algebra_simps)
  qed
qed

lemma row_score_v:
  assumes v: "wf_mat (param_v self)" and i: "i < nrows (param_v self)" and k: "k < ncols (param_v self)"
    and r: "length r = nrows (param_v self)"
  shows "row_score (self\<lparr>param_v := (param_v self)\<lparr>rows := (rows (param_v self))[i := (rows (param_v self) ! i)[k := a]]\<rparr>\<rparr>) r
         = row_score self r + (a - rows (param_v self) ! i ! k)
             * (r ! i * (dot r (map (\<lambda>vr. vr ! k) (rows (param_v self))) - r ! i * rows (param_v self) ! i ! k))"
proof -
  let ?v = "param_v self"
  define v' where "v' = ?v\<lparr>rows := (rows ?v)[i := (rows ?v ! i)[k := a]]\<rparr>"
  define T where "T = (\<lambda>j. (dot r (map (\<lambda>vr. vr ! j) (rows ?v))) ^ 2
           - dot (map (\<lambda>t. t ^ 2) r) (map (\<lambda>vr. vr ! j) (map (map (\<lambda>t. t ^ 2)) (rows ?v))))"
  define T' where "T' = (\<lambda>j. (dot r (map (\<lambda>vr. vr ! j) (rows v'))) ^ 2
           - dot (map (\<lambda>t. t ^ 2) r) (map (\<lambda>vr. vr ! j) (map (map (\<lambda>t. t ^ 2)) (rows v'))))"
  define e where "e = 2 * ((a - rows ?v ! i ! k)
               * (r ! i * (dot r (map (\<lambda>vr. vr ! k) (rows ?v)) - r ! i * rows ?v ! i ! k)))"
  have "(\<Sum>j<ncols ?v. T' j) = (\<Sum>j<ncols ?v. T j + (if j = k then e else 0))"
  proof (rule sum.cong [OF refl])
    fix j assume "j \<in> {..<ncols ?v}"
    then have j: "j < ncols ?v" by simp
    show "T' j = T j + (if j = k then e else 0)"
      unfolding T'_def T_def e_def by (rule inter_term_after_set [OF v i k r v'_def j])
  qed
  also have "\<dots> = (\<Sum>j<ncols ?v. T j) + e"
    using k by (simp add: sum.distrib)
  finally have "(\<Sum>j<ncols ?v. T' j) = (\<Sum>j<ncols ?v. T j) + e" .
  moreover have "row_score (self\<lparr>param_v := v'\<rparr>) r
      = param_b self + dot r (param_w self) + 0.5 * (\<Sum>j<ncols ?v. T' j)"
    by (simp add: row_score_def T'_def v'_def)
  moreover have "row_score self r = param_b self + dot r (param_w self) + 0.5 * (\<Sum>j<ncols ?v. T j)"
    by (simp add: row_score_def T_def)
  ultimately show ?thesis
    unfolding v'_def [symmetric] by (simp add: e_def algebra_simps)
qed

lemma calc_h_v_rows:
  assumes x: "wf_mat x" and v: "wf_mat v" and sh: "ncols x = nrows v"
    and i': "norm_index (nrows v) i = Inr i'" and k': "norm_index (ncols v) k = Inr k'"
  shows "calc_h_v x v i k
         = Inr (map (\<lambda>r. r ! i' * (dot r (map (\<lambda>vr. vr ! k') (rows v)) - r ! i' * rows v ! i' ! k')) (rows x))"
proof -
  have 1: "col x i = Inr (map (\<lambda>r. r ! i') (rows x))"
    using i' sh by (simp add: col_def)
  have 2: "col v k = Inr (map (\<lambda>r. r ! k') (rows v))"
    using k' by (simp add: col_def)
  have 3: "matvec x (map (\<lambda>r. r ! k') (rows v)) = Inr (map (\<lambda>r. dot r (map (\<lambda>vr. vr ! k') (rows v))) (rows x))"
    using sh v by (simp add: matvec_def wf_mat_length)
  have 4: "item2 v i k = Inr (rows v ! i' ! k')"
    using i' k' by (simp add: item2_def)
  show ?thesis
    unfolding calc_h_v_def 1 2 3 4 bindE_simps
    by (simp add: np_binop_def scale_def map2_map_map mult.commute)
qed

lemma linear_step:
  assumes ok: "shapes_ok self x" and g: "get_param self th = Inr p"
    and s: "set_param self th p' = Inr self'"
  shows "\<exists>hr. calc_h x self th = Inr (map hr (rows x)) \<and> calc_h x self' th = Inr (map hr (rows x))
           \<and> (\<forall>r\<in>set (rows x). row_score self' r = row_score self r + (p' - p) * hr r)
           \<and> shapes_ok self' x \<and> ncols (param_v self') = ncols (param_v self)
           \<and> (case th of Theta_v i k \<Rightarrow> set_item2 (param_v self) i k p' = Inr (param_v self')
                 | _ \<Rightarrow> param_v self' = param_v self)"
proof (cases th)
  case Theta_b
  have "calc_h_b x = map (\<lambda>r. 1) (rows x)"
    using ok by (simp add: calc_h_b_def shapes_ok_def wf_mat_length map_replicate_const)
  moreover have "self' = self\<lparr>param_b := p'\<rparr>" "p = param_b self"
    using g s Theta_b by (simp_all add: get_param_def set_param_def)
  ultimately show ?thesis
    using ok Theta_b
    by (intro exI [of _ "\<lambda>r. 1"]) (simp add: calc_h_def row_score_b shapes_ok_def)
next
  case (Theta_w i)
  from g Theta_w obtain i' where i': "norm_index (length (param_w self)) i = Inr i'"
    and p: "p = param_w self ! i'"
    by (auto simp: get_param_def item1_def bindE_eq_Inr)
  from s Theta_w i' have self': "self' = self\<lparr>param_w := (param_w self)[i' := p']\<rparr>"
    by (auto simp: set_param_def set_item1_def)
  have il: "i' < length (param_w self)" using i' by (rule norm_index_less)
  have h: "calc_h_w x i = Inr (map (\<lambda>r. r ! i') (rows x))"
    using i' ok by (simp add: calc_h_w_def col_def shapes_ok_def)
  have "row_score self' r = row_score self r + (p' - p) * (r ! i')" if "r \<in> set (rows x)" for r
  proof -
    from that ok have "length r = length (param_w self)"
      using wf_mat_rowD [of x r] by (simp add: shapes_ok_def)
    with il show ?thesis unfolding self' p by (rule row_score_w)
  qed
  with h ok Theta_w show ?thesis
    by (intro exI [of _ "\<lambda>r. r ! i'"]) (simp add: calc_h_def self' shapes_ok_def)
next
  case (Theta_v i k)
  let ?v = "param_v self"
  from ok have x: "wf_mat x" and v: "wf_mat ?v" and sh: "ncols x = nrows ?v"
    by (simp_all add: shapes_ok_def)
  from g Theta_v obtain i' k' where i': "norm_index (nrows ?v) i = Inr i'"
    and k': "norm_index (ncols ?v) k = Inr k'" and p: "p = rows ?v ! i' ! k'"
    by (auto simp: get_param_def item2_def bindE_eq_Inr)
  define v' where "v' = ?v\<lparr>rows := (rows ?v)[i' := (rows ?v ! i')[k' := p']]\<rparr>"
  from s Theta_v i' k' have sv: "set_item2 ?v i k p' = Inr v'" and self': "self' = self\<lparr>param_v := v'\<rparr>"
    by (auto simp: set_param_def set_item2_def v'_def)
  have il: "i' < nrows ?v" and kl: "k' < ncols ?v"
    using i' k' by (auto dest: norm_index_less)
  from wf_set_item2 [OF v sv] have v'wf: "wf_mat v'" and v'sh: "nrows v' = nrows ?v" "ncols v' = ncols ?v"
    by simp_all
  define hr where "hr = (\<lambda>r. r ! i' * (dot r (map (\<lambda>vr. vr ! k') (rows ?v)) - r ! i' * rows ?v ! i' ! k'))"
  have h: "calc_h_v x ?v i k = Inr (map hr (rows x))"
    unfolding hr_def by (rule calc_h_v_rows [OF x v sh i' k'])
  have "calc_h_v x v' i k
      = Inr (map (\<lambda>r. r ! i' * (dot r (map (\<lambda>vr. vr ! k') (rows v')) - r ! i' * rows v' ! i' ! k')) (rows x))"
    by (rule calc_h_v_rows [OF x v'wf]) (simp_all add: v'sh sh i' k')
  also have "map (\<lambda>r. r ! i' * (dot r (map (\<lambda>vr. vr ! k') (rows v')) - r ! i' * rows v' ! i' ! k')) (rows x)
      = map hr (rows x)"
  proof (rule map_cong [OF refl])
    fix r assume "r \<in> set (rows x)"
    then have lr: "length r = nrows ?v" using x sh by (simp add: wf_mat_rowD)
    have li: "i' < length (rows ?v)" "length r = length (rows ?v)"
      using il lr v by (simp_all add: wf_mat_length)
    have kk: "k' < length (rows ?v ! i')" using v il kl by (simp add: wf_mat_nthD)
    have c: "map (\<lambda>vr. vr ! k') (rows v') = (map (\<lambda>vr. vr ! k') (rows ?v))[i' := p']"
      unfolding v'_def using col_after_set [OF v il kl kl, of p'] by simp
    have e: "rows v' ! i' ! k' = p'"
      using li kk by (simp add: v'_def)
    show "r ! i' * (dot r (map (\<lambda>vr. vr ! k') (rows v')) - r ! i' * rows v' ! i' ! k') = hr r"
      unfolding c e hr_def using li by (simp add: dot_list_update algebra_simps)
  qed
  finally have h': "calc_h_v x v' i k = Inr (map hr (rows x))" .
  have "row_score self' r = row_score self r + (p' - p) * hr r" if "r \<in> set (rows x)" for r
  proof -
    from that have lr: "length r = nrows ?v" using x sh by (simp add: wf_mat_rowD)
    show ?thesis unfolding self' v'_def p hr_def by (rule row_score_v [OF v il kl lr])
  qed
  with h h' Theta_v ok v'wf v'sh sv show ?thesis
    by (intro exI [of _ hr]) (simp add: calc_h_def self' shapes_ok_def)
qed

lemma predict_as_array:
  assumes "shapes_ok self x"
  shows "\<exists>y. predict self (Arr2 x) = Inr y \<and> as_array y = map (row_score self) (rows x)"
proof -
  from assms have "ncols x = length (param_w self)" "ncols x = nrows (param_v self)"
    by (simp_all add: shapes_ok_def)
  note p = predict_rows [OF this]
  show ?thesis
  proof (cases "length (rows x) = 1")
    case True
    then obtain r where "rows x = [r]" by (auto simp: length_Suc_conv)
    with p show ?thesis by (simp add: as_array_def)
  next
    case False
    with p show ?thesis by (simp add: as_array_def)
  qed
qed

lemma calc_g_rows:
  "calc_g (map F rs) (map hr rs) p = Inr (map (\<lambda>r. F r - p * hr r) rs)"
  by (simp add: calc_g_def np_binop_def scale_def map2_map_map)

lemma add_scaled_rows:
  "np_binop (+) (map F rs) (scale s (map hr rs)) = Inr (map (\<lambda>r. F r + s * hr r) rs)"
  by (simp add: np_binop_def scale_def map2_map_map)

lemma scaled_add_rows:
  "np_binop (+) (scale s (map hr rs)) (map G rs) = Inr (map (\<lambda>r. s * hr r + G r) rs)"
  by (simp add: np_binop_def scale_def map2_map_map)

text \<open>
  Claim C3. Let \<open>\<theta>\<close> be the bias, an entry of \<open>w\<close> or an entry of \<open>v\<close>, with value \<open>p\<close>, and
  let the parameters \<open>self'\<close> differ from \<open>self\<close> in the value \<open>p'\<close> of \<open>\<theta>\<close> only. Then
  \<open>calc_h_b\<close>, \<open>calc_h_w\<close>, \<open>calc_h_v\<close> give the same \<open>h\<close> under both, \<open>calc_g\<close> gives the same
  \<open>g\<close> from both predictions, and each prediction is \<open>\<theta> * h + g\<close> with its own value
  of \<open>\<theta>\<close>.
\<close>

theorem fm_linear_in_each_parameter:
  assumes "shapes_ok self x" and "get_param self th = Inr p" and "set_param self th p' = Inr self'"
  shows "\<exists>y y' h g. predict self (Arr2 x) = Inr y \<and> predict self' (Arr2 x) = Inr y'
        \<and> calc_h x self th = Inr h \<and> calc_h x self' th = Inr h
        \<and> calc_g (as_array y) h p = Inr g \<and> calc_g (as_array y') h p' = Inr g
        \<and> np_binop (+) (scale p h) g = Inr (as_array y)
        \<and> np_binop (+) (scale p' h) g = Inr (as_array y')"
proof -
  from linear_step [OF assms] obtain hr where
    h: "calc_h x self th = Inr (map hr (rows x))" and h': "calc_h x self' th = Inr (map hr (rows x))"
    and lin: "\<And>r. r \<in> set (rows x) \<Longrightarrow> row_score self' r = row_score self r + (p' - p) * hr r"
    and ok': "shapes_ok self' x"
    by blast
  from predict_as_array [OF assms(1)] obtain y where
    y: "predict self (Arr2 x) = Inr y" "as_array y = map (row_score self) (rows x)" by blast
  from predict_as_array [OF ok'] obtain y' where
    y': "predict self' (Arr2 x) = Inr y'" "as_array y' = map (row_score self') (rows x)" by blast
  define g where "g = map (\<lambda>r. row_score self r - p * hr r) (rows x)"
  have g1: "calc_g (as_array y) (map hr (rows x)) p = Inr g"
    unfolding y g_def by (rule calc_g_rows)
  have eq: "map (\<lambda>r. row_score self' r - p' * hr r) (rows x) = g"
    unfolding g_def by (rule map_cong [OF refl]) (simp add: lin algebra_simps)
  have g2: "calc_g (as_array y') (map hr (rows x)) p' = Inr g"
    unfolding y' eq [symmetric] by (rule calc_g_rows)
  have s1: "np_binop (+) (scale p (map hr (rows x))) g = Inr (as_array y)"
    unfolding g_def y scaled_add_rows by simp
  have s2: "np_binop (+) (scale p' (map hr (rows x))) g = Inr (as_array y')"
    unfolding eq [symmetric] y' scaled_add_rows by simp
  from y y' h h' g1 g2 s1 s2 show ?thesis by blast
qed

theorem fm_linear_in_each_parameter_witness:
  "shapes_ok P2 x0 \<and> get_param P2 (Theta_v 0 1) = Inr 2
   \<and> set_param P2 (Theta_v 0 1) 7 = Inr (P2\<lparr>param_v := \<lparr>nrows = 2, ncols = 2, rows = [[1, 7], [3, 4]]\<rparr>\<rparr>)
   \<and> (\<exists>y y' h g. predict P2 (Arr2 x0) = Inr y
        \<and> predict (P2\<lparr>param_v := \<lparr>nrows = 2, ncols = 2, rows = [[1, 7], [3, 4]]\<rparr>\<rparr>) (Arr2 x0) = Inr y'
        \<and> calc_h x0 P2 (Theta_v 0 1) = Inr h
        \<and> calc_h x0 (P2\<lparr>param_v := \<lparr>nrows = 2, ncols = 2, rows = [[1, 7], [3, 4]]\<rparr>\<rparr>) (Theta_v 0 1) = Inr h
        \<and> calc_g (as_array y) h 2 = Inr g \<and> calc_g (as_array y') h 7 = Inr g
        \<and> np_binop (+) (scale 2 h) g = Inr (as_array y)
        \<and> np_binop (+) (scale 7 h) g = Inr (as_array y'))"
proof -
  have h: "shapes_ok P2 x0" "get_param P2 (Theta_v 0 1) = Inr 2"
    "set_param P2 (Theta_v 0 1) 7 = Inr (P2\<lparr>param_v := \<lparr>nrows = 2, ncols = 2, rows = [[1, 7], [3, 4]]\<rparr>\<rparr>)"
    by (simp_all add: shapes_ok_def P2_def x0_def wf_mat_def get_param_def set_param_def item2_def
        set_item2_def norm_index_def)
  from fm_linear_in_each_parameter [OF h] h show ?thesis by simp
qed

section \<open>Incremental updates against recomputation\<close>

lemma partial_derivative_calc_h:
  assumes "wf_mat (param_v self)" "matmul x (param_v self) = Inr q"
  shows "partial_derivative x (param_v self) q th = calc_h x self th"
  using assms by (cases th) (simp_all add: partial_derivative_def calc_h_def calc_h_v_fast_naive)

lemma apply_update_inv:
  assumes inv: "cache_ok x self c" and u: "apply_update x (self, c) (th, a) = Inr (self', c')"
  shows "cache_ok x self' c'"
proof -
  from inv have ok: "shapes_ok self x" and f: "cache_f c = map (row_score self) (rows x)"
    and q: "matmul x (param_v self) = Inr (cache_q c)"
    by (simp_all add: cache_ok_def)
  from ok have x: "wf_mat x" and v: "wf_mat (param_v self)" by (simp_all add: shapes_ok_def)
  from u obtain h old f' q' where
    h: "partial_derivative x (param_v self) (cache_q c) th = Inr h"
    and old: "get_param self th = Inr old"
    and f': "np_binop (+) (cache_f c) (calc_df h a old) = Inr f'"
    and q': "(case th of
                 Theta_v i k \<Rightarrow>
                   bindE (calc_dq x a (param_v self) i k) (\<lambda>dq. add_col (cache_q c) k dq)
               | _ \<Rightarrow> Inr (cache_q c)) = Inr q'"
    and s: "set_param self th a = Inr self'"
    and c': "c' = \<lparr>cache_f = f', cache_q = q'\<rparr>"
    unfolding apply_update_def prod.case bindE_eq_Inr by auto
  from linear_step [OF ok old s] obtain hr where
    hh: "calc_h x self th = Inr (map hr (rows x))"
    and lin: "\<And>r. r \<in> set (rows x) \<Longrightarrow> row_score self' r = row_score self r + (a - old) * hr r"
    and ok': "shapes_ok self' x"
    and vcase: "(case th of Theta_v i k \<Rightarrow> set_item2 (param_v self) i k a = Inr (param_v self')
                 | _ \<Rightarrow> param_v self' = param_v self)"
    by blast
  from h hh have hv: "h = map hr (rows x)"
    by (simp add: partial_derivative_calc_h [OF v q])
  have "f' = map (\<lambda>r. row_score self r + (a - old) * hr r) (rows x)"
    using f' unfolding f hv calc_df_def add_scaled_rows by simp
  also have "\<dots> = map (row_score self') (rows x)"
    by (rule map_cong [OF refl]) (simp add: lin)
  finally have F: "cache_f c' = map (row_score self') (rows x)" by (simp add: c')
  have Q: "matmul x (param_v self') = Inr (cache_q c')"
  proof (cases th)
    case Theta_b
    with q' vcase q show ?thesis by (simp add: c')
  next
    case (Theta_w i)
    with q' vcase q show ?thesis by (simp add: c')
  next
    case (Theta_v i k)
    with q' obtain dq where "calc_dq x a (param_v self) i k = Inr dq" "add_col (cache_q c) k dq = Inr q'"
      by (auto simp: bindE_eq_Inr)
    moreover from vcase Theta_v have "set_item2 (param_v self) i k a = Inr (param_v self')" by simp
    ultimately have "update_q x (param_v self, cache_q c) (i, k, a) = Inr (param_v self', q')"
      by (simp add: update_q_def)
    from update_q_inv [OF x v q this] show ?thesis by (simp add: c')
  qed
  from ok' F Q show ?thesis by (simp add: cache_ok_def)
qed

lemma apply_update_total:
  assumes inv: "cache_ok x self c" and valid: "valid_theta self (th, a)"
  shows "\<exists>self' c'. apply_update x (self, c) (th, a) = Inr (self', c')
           \<and> valid_theta self' = valid_theta self"
proof -
  from inv have ok: "shapes_ok self x" and f: "cache_f c = map (row_score self) (rows x)"
    and q: "matmul x (param_v self) = Inr (cache_q c)"
    by (simp_all add: cache_ok_def)
  from ok have x: "wf_mat x" and v: "wf_mat (param_v self)" by (simp_all add: shapes_ok_def)
  have "\<exists>old self'. get_param self th = Inr old \<and> set_param self th a = Inr self'"
  proof (cases th)
    case Theta_b
    then show ?thesis by (simp add: get_param_def set_param_def)
  next
    case (Theta_w i)
    with valid obtain i' where "norm_index (length (param_w self)) i = Inr i'"
      using norm_index_valid [of "length (param_w self)" i] by (auto simp: valid_theta_def)
    with Theta_w show ?thesis by (simp add: get_param_def set_param_def item1_def set_item1_def)
  next
    case (Theta_v i k)
    with valid obtain i' k' where "norm_index (nrows (param_v self)) i = Inr i'"
      "norm_index (ncols (param_v self)) k = Inr k'"
      using norm_index_valid [of "nrows (param_v self)" i] norm_index_valid [of "ncols (param_v self)" k]
      by (auto simp: valid_theta_def valid_ik_def)
    with Theta_v show ?thesis by (simp add: get_param_def set_param_def item2_def set_item2_def)
  qed
  then obtain old self' where old: "get_param self th = Inr old"
    and s: "set_param self th a = Inr self'" by blast
  from linear_step [OF ok old s] obtain hr where
    hh: "calc_h x self th = Inr (map hr (rows x))"
    and ok': "shapes_ok self' x" and nc: "ncols (param_v self') = ncols (param_v self)"
    by blast
  have h: "partial_derivative x (param_v self) (cache_q c) th = Inr (map hr (rows x))"
    using hh by (simp add: partial_derivative_calc_h [OF v q])
  have f': "np_binop (+) (cache_f c) (calc_df (map hr (rows x)) a old)
            = Inr (map (\<lambda>r. row_score self r + (a - old) * hr r) (rows x))"
    unfolding f calc_df_def by (rule add_scaled_rows)
  have "\<exists>q'. (case th of
                 Theta_v i k \<Rightarrow>
                   bindE (calc_dq x a (param_v self) i k) (\<lambda>dq. add_col (cache_q c) k dq)
               | _ \<Rightarrow> Inr (cache_q c)) = Inr q'"
  proof (cases th)
    case (Theta_v i k)
    with valid have "valid_ik (param_v self) (i, k, a)" by (simp add: valid_theta_def)
    from update_q_total [OF x v q this] obtain v1 q1 where
      "update_q x (param_v self, cache_q c) (i, k, a) = Inr (v1, q1)" by blast
    then obtain dq where "calc_dq x a (param_v self) i k = Inr dq" "add_col (cache_q c) k dq = Inr q1"
      by (auto simp: update_q_def bindE_eq_Inr)
    with Theta_v show ?thesis by simp
  qed simp_all
  then obtain q' where q': "(case th of
                 Theta_v i k \<Rightarrow>
                   bindE (calc_dq x a (param_v self) i k) (\<lambda>dq. add_col (cache_q c) k dq)
               | _ \<Rightarrow> Inr (cache_q c)) = Inr q'" by blast
  have "apply_update x (self, c) (th, a)
        = Inr (self', \<lparr>cache_f = map (\<lambda>r. row_score self r + (a - old) * hr r) (rows x), cache_q = q'\<rparr>)"
    unfolding apply_update_def prod.case h old f' q' s bindE_simps ..
  moreover from ok ok' nc have "valid_theta self' = valid_theta self"
    by (auto simp: fun_eq_iff valid_theta_def valid_ik_def shapes_ok_def split: theta.splits)
  ultimately show ?thesis by blast
qed

lemma apply_updates_inv:
  "cache_ok x self c \<Longrightarrow> apply_updates x (self, c) us = Inr (self', c') \<Longrightarrow> cache_ok x self' c'"
proof (induction us arbitrary: self c)
  case Nil
  then show ?case by simp
next
  case (Cons u us)
  obtain th a where u: "u = (th, a)" by (cases u) auto
  from Cons.prems(2) obtain self1 c1 where s1: "apply_update x (self, c) (th, a) = Inr (self1, c1)"
    and r: "apply_updates x (self1, c1) us = Inr (self', c')"
    by (auto simp: u bindE_eq_Inr)
  from apply_update_inv [OF Cons.prems(1) s1] have "cache_ok x self1 c1" .
  then show ?case using r by (rule Cons.IH)
qed

lemma apply_updates_total:
  "cache_ok x self c \<Longrightarrow> list_all (valid_theta self) us
     \<Longrightarrow> \<exists>s'. apply_updates x (self, c) us = Inr s'"
proof (induction us arbitrary: self c)
  case Nil
  then show ?case by simp
next
  case (Cons u us)
  obtain th a where u: "u = (th, a)" by (cases u) auto
  from Cons.prems(2) have ok: "valid_theta self (th, a)" and rest: "list_all (valid_theta self) us"
    by (simp_all add: u)
  from apply_update_total [OF Cons.prems(1) ok] obtain self1 c1 where
    s1: "apply_update x (self, c) (th, a) = Inr (self1, c1)"
    and vt: "valid_theta self1 = valid_theta self" by blast
  from apply_update_inv [OF Cons.prems(1) s1] have inv1: "cache_ok x self1 c1" .
  from rest vt have "list_all (valid_theta self1) us" by simp
  from Cons.IH [OF inv1 this] obtain s' where "apply_updates x (self1, c1) us = Inr s'" by blast
  with s1 show ?case by (simp add: u)
qed

lemma init_cache_ok:
  assumes "shapes_ok self x" "init_cache x self = Inr c"
  shows "cache_ok x self c"
proof -
  from predict_as_array [OF assms(1)] obtain y where
    y: "predict self (Arr2 x) = Inr y" "as_array y = map (row_score self) (rows x)" by blast
  with assms show ?thesis
    by (auto simp: init_cache_def cache_ok_def calc_q_init_def bindE_eq_Inr)
qed

text \<open>
  Claim C1. Start from the cache of a full forward pass and \<open>q = x @ v\<close>, and run any list
  of single-parameter updates, each adding \<open>calc_df\<close> of the cached derivative to \<open>f\<close> and,
  for an entry of \<open>v\<close>, \<open>calc_dq\<close> to a column of \<open>q\<close>. Whenever the run returns, the cached
  \<open>f\<close> is what \<open>predict\<close> returns for the parameters reached, and \<open>q\<close> is \<open>x @ v\<close>; the run
  returns when every update names a parameter that exists. A prefix of a list of updates is a
  list of updates, so this holds after every step.
\<close>

theorem incremental_equals_recompute:
  assumes "shapes_ok self x" and "init_cache x self = Inr c"
  shows "(\<forall>self' c'. apply_updates x (self, c) us = Inr (self', c') \<longrightarrow>
            (\<exists>y. predict self' (Arr2 x) = Inr y \<and> as_array y = cache_f c')
            \<and> calc_q_init x (param_v self') = Inr (cache_q c'))
       \<and> (list_all (valid_theta self) us \<longrightarrow> (\<exists>s'. apply_updates x (self, c) us = Inr s'))"
proof (intro conjI allI impI)
  note inv = init_cache_ok [OF assms]
  fix self' c'
  assume "apply_updates x (self, c) us = Inr (self', c')"
  with inv have ok: "cache_ok x self' c'" by (rule apply_updates_inv)
  then have "shapes_ok self' x" by (simp add: cache_ok_def)
  from predict_as_array [OF this] ok
  show "\<exists>y. predict self' (Arr2 x) = Inr y \<and> as_array y = cache_f c'"
    by (simp add: cache_ok_def)
  from ok show "calc_q_init x (param_v self') = Inr (cache_q c')"
    by (simp add: cache_ok_def calc_q_init_def)
next
  assume "list_all (valid_theta self) us"
  with init_cache_ok [OF assms] show "\<exists>s'. apply_updates x (self, c) us = Inr s'"
    by (rule apply_updates_total)
qed

theorem incremental_equals_recompute_witness:
  "shapes_ok P2 x0 \<and> init_cache x0 P2 = Inr c0 \<and> list_all (valid_theta P2) us0
   \<and> apply_updates x0 (P2, c0) us0 = Inr (P3, c3)
   \<and> (\<exists>y. predict P3 (Arr2 x0) = Inr y \<and> as_array y = cache_f c3)
   \<and> calc_q_init x0 (param_v P3) = Inr (cache_q c3)"
proof -
  have h: "shapes_ok P2 x0" by (simp add: shapes_ok_def P2_def x0_def wf_mat_def)
  have i: "init_cache x0 P2 = Inr c0"
    by (simp add: init_cache_def P2_def x0_def c0_def ev_predict calc_q_init_def as_array_def upt_2)
  have v: "list_all (valid_theta P2) us0"
    by (simp add: us0_def valid_theta_def valid_ik_def P2_def)
  have r: "apply_updates x0 (P2, c0) us0 = Inr (P3, c3)"
    by (simp add: us0_def P2_def P3_def x0_def c0_def c3_def apply_update_def partial_derivative_def
        get_param_def set_param_def calc_h_b_def calc_h_w_def calc_h_v_fast_def calc_df_def calc_dq_def
        add_col_def col_def item1_def item2_def set_item1_def set_item2_def norm_index_def
        np_binop_def scale_def numeral_2_eq_2)
  from incremental_equals_recompute [OF h i, of us0] r h i v show ?thesis by simp
qed

section \<open>Elimination solves every nonsingular system\<close>

lemma dot_Cons [simp]: "dot (a # r) (c # s) = a * c + dot r s"
  by (simp add: dot_def)

lemma dot_Nil [simp]: "dot [] s = 0" "dot r [] = 0"
  by (simp_all add: dot_def)

lemma dot_replicate_zero [simp]: "dot r (replicate n 0) = 0"
proof (induction r arbitrary: n)
  case Nil
  then show ?case by simp
next
  case (Cons a r)
  then show ?case by (cases n) simp_all
qed

lemma dot_eliminated:
  "length r2 = length r \<Longrightarrow> dot (map2 (\<lambda>t u. t - f * u) r2 r) s = dot r2 s - f * dot r s"
proof (induction r2 r arbitrary: s rule: list_induct2)
  case Nil
  then show ?case by simp
next
  case (Cons a r2 c r)
  then show ?case by (cases s) (simp_all add: algebra_simps)
qed

lemma set_remove1_insert: "x \<in> set xs \<Longrightarrow> set xs = insert x (set (remove1 x xs))"
  by (induction xs) auto

lemma gauss_solves:
  "sys_wf n sys \<Longrightarrow> nonsingular n (map fst sys)
     \<Longrightarrow> \<exists>s. gauss n sys = Some s \<and> length s = n \<and> solves sys s"
proof (induction n arbitrary: sys)
  case 0
  then show ?case by (simp add: sys_wf_def solves_def)
next
  case (Suc n)
  from Suc.prems(1) have len: "length sys = Suc n"
    and rl: "\<And>eq. eq \<in> set sys \<Longrightarrow> length (fst eq) = Suc n"
    by (simp_all add: sys_wf_def list_all_iff)
  have "\<exists>pivot. find (\<lambda>eq. hd (fst eq) \<noteq> 0) sys = Some pivot"
  proof (rule ccontr)
    assume "\<not> ?thesis"
    then have "find (\<lambda>eq. hd (fst eq) \<noteq> 0) sys = None"
      by (cases "find (\<lambda>eq. hd (fst eq) \<noteq> 0) sys") auto
    then have none: "\<And>eq. eq \<in> set sys \<Longrightarrow> hd (fst eq) = 0"
      by (auto simp: find_None_iff)
    have "dot r (1 # replicate n 0) = 0" if "r \<in> set (map fst sys)" for r
    proof -
      from that obtain eq where eq: "eq \<in> set sys" "r = fst eq" by auto
      with rl [of eq] have "length r = Suc n" by simp
      then obtain a r' where ar: "r = a # r'" by (auto simp: length_Suc_conv)
      from none [OF eq(1)] have "hd r = 0" by (simp add: eq(2))
      then show ?thesis unfolding ar by simp
    qed
    with Suc.prems(2) have "1 # replicate n 0 = replicate (Suc n) (0::real)"
      unfolding nonsingular_def by (metis length_Cons length_replicate)
    then show False by simp
  qed
  then obtain pivot where f: "find (\<lambda>eq. hd (fst eq) \<noteq> 0) sys = Some pivot" by blast
  then have pin: "pivot \<in> set sys" and pnz: "hd (fst pivot) \<noteq> 0"
    by (auto simp: find_Some_iff)
  obtain r y where pv: "pivot = (r, y)" by (cases pivot) auto
  from rl [OF pin] pv have "length r = Suc n" by simp
  then obtain a r' where r: "r = a # r'" and lr': "length r' = n"
    by (auto simp: length_Suc_conv)
  from pnz pv r have a: "a \<noteq> 0" by simp
  define rest where "rest = remove1 pivot sys"
  define sys' where "sys' = map (eliminate pivot) rest"
  have lrest: "length rest = n" using pin len by (simp add: rest_def length_remove1)
  have rest_in: "\<And>eq. eq \<in> set rest \<Longrightarrow> eq \<in> set sys"
    unfolding rest_def using set_remove1_subset [of pivot sys] by blast
  have setsys: "set sys = insert pivot (set rest)"
    unfolding rest_def by (rule set_remove1_insert [OF pin])
  have shape: "\<exists>c rr. fst eq = c # rr \<and> length rr = n" if "eq \<in> set rest" for eq
    using rl [OF rest_in [OF that]] by (auto simp: length_Suc_conv)
  have elim: "eliminate pivot eq = (map2 (\<lambda>t u. t - (c / a) * u) rr r', y2 - (c / a) * y)"
    if "eq = (c # rr, y2)" for eq c rr y2
    by (simp add: eliminate_def pv r that)
  have wf': "sys_wf n sys'"
    unfolding sys_wf_def list_all_iff sys'_def
  proof (intro conjI ballI)
    show "length (map (eliminate pivot) rest) = n" by (simp add: lrest)
    fix e assume "e \<in> set (map (eliminate pivot) rest)"
    then obtain eq where eq: "eq \<in> set rest" "e = eliminate pivot eq" by auto
    from shape [OF eq(1)] obtain c rr where "fst eq = c # rr" "length rr = n" by blast
    then have "eq = (c # rr, snd eq)" by (cases eq) simp
    from elim [OF this] eq(2) \<open>length rr = n\<close> lr' show "length (fst e) = n" by simp
  qed
  have ns': "nonsingular n (map fst sys')"
    unfolding nonsingular_def
  proof (intro allI impI)
    fix z' :: vec
    assume lz: "length z' = n" and hom: "\<forall>r\<in>set (map fst sys'). dot r z' = 0"
    define z0 where "z0 = - dot r' z' / a"
    have "dot q (z0 # z') = 0" if "q \<in> set (map fst sys)" for q
    proof -
      from that obtain eq where eq: "eq \<in> set sys" "q = fst eq" by auto
      from eq(1) setsys consider "eq = pivot" | "eq \<in> set rest" by auto
      then show ?thesis
      proof cases
        case 1
        with eq pv r a show ?thesis by (simp add: z0_def)
      next
        case 2
        from shape [OF 2] obtain c rr where ce: "fst eq = c # rr" and lrr: "length rr = n" by blast
        then have eqf: "eq = (c # rr, snd eq)" by (cases eq) simp
        have "fst (eliminate pivot eq) \<in> set (map fst sys')"
          using 2 by (simp add: sys'_def)
        with hom have "dot (fst (eliminate pivot eq)) z' = 0" by blast
        moreover have "dot (fst (eliminate pivot eq)) z' = dot rr z' - (c / a) * dot r' z'"
          unfolding elim [OF eqf] fst_conv by (rule dot_eliminated) (simp add: lrr lr')
        ultimately have "dot rr z' - (c / a) * dot r' z' = 0" by simp
        with a show ?thesis unfolding eq(2) ce z0_def by (simp add: field_simps)
      qed
    qed
    with Suc.prems(2) have "z0 # z' = replicate (Suc n) 0"
      unfolding nonsingular_def using lz by (metis length_Cons)
    then show "z' = replicate n 0" by simp
  qed
  from Suc.IH [OF wf' ns'] obtain s' where g: "gauss n sys' = Some s'"
    and ls': "length s' = n" and sol: "solves sys' s'" by blast
  define s0 where "s0 = (y - dot r' s') / a"
  have res: "gauss (Suc n) sys = Some (s0 # s')"
    using f g by (simp add: sys'_def rest_def s0_def pv r)
  have "dot (fst eq) (s0 # s') = snd eq" if "eq \<in> set sys" for eq
  proof -
    from that setsys consider "eq = pivot" | "eq \<in> set rest" by auto
    then show ?thesis
    proof cases
      case 1
      with pv r a show ?thesis by (simp add: s0_def)
    next
      case 2
      from shape [OF 2] obtain c rr where ce: "fst eq = c # rr" and lrr: "length rr = n" by blast
      then have eqf: "eq = (c # rr, snd eq)" by (cases eq) simp
      have "eliminate pivot eq \<in> set sys'" using 2 by (simp add: sys'_def)
      with sol have "dot (fst (eliminate pivot eq)) s' = snd (eliminate pivot eq)"
        by (simp add: solves_def list_all_iff)
      moreover have "dot (fst (eliminate pivot eq)) s' = dot rr s' - (c / a) * dot r' s'"
        unfolding elim [OF eqf] fst_conv by (rule dot_eliminated) (simp add: lrr lr')
      moreover have "snd (eliminate pivot eq) = snd eq - (c / a) * y"
        unfolding elim [OF eqf] by simp
      ultimately have "dot rr s' - (c / a) * dot r' s' = snd eq - (c / a) * y" by simp
      with a show ?thesis unfolding ce s0_def by (simp add: field_simps)
    qed
  qed
  then have "solves sys (s0 # s')" by (simp add: solves_def list_all_iff)
  with res ls' show ?case by simp
qed

lemma map_const_zero:
  "(\<And>r. r \<in> set rs \<Longrightarrow> f r = (0::real)) \<Longrightarrow> map f rs = replicate (length rs) 0"
  by (induction rs) simp_all

lemma solves_zip:
  "length rs = length ys \<Longrightarrow> solves (zip rs ys) s \<longleftrightarrow> map (\<lambda>r. dot r s) rs = ys"
  by (induction rs ys rule: list_induct2) (auto simp: solves_def)

lemma linalg_solve_nonsingular:
  assumes m: "wf_mat m" and sq: "nrows m = ncols m" and y: "length y = nrows m"
    and ns: "nonsingular (nrows m) (rows m)"
  shows "\<exists>s. linalg_solve m y = Inr s \<and> length s = nrows m \<and> matvec m s = Inr y"
proof -
  have len: "length (rows m) = length y" using m y by (simp add: wf_mat_length)
  have "sys_wf (nrows m) (zip (rows m) y)"
    unfolding sys_wf_def list_all_iff
  proof (intro conjI ballI)
    show "length (zip (rows m) y) = nrows m" using len y by simp
    fix eq assume "eq \<in> set (zip (rows m) y)"
    then have "fst eq \<in> set (rows m)" by (metis prod.collapse set_zip_leftD)
    then show "length (fst eq) = nrows m" using m sq by (simp add: wf_mat_rowD)
  qed
  moreover have "nonsingular (nrows m) (map fst (zip (rows m) y))"
    using ns len by simp
  ultimately obtain s where g: "gauss (nrows m) (zip (rows m) y) = Some s"
    and ls: "length s = nrows m" and sol: "solves (zip (rows m) y) s"
    using gauss_solves by blast
  from sol len have "map (\<lambda>r. dot r s) (rows m) = y" by (simp add: solves_zip)
  then have "matvec m s = Inr y" using ls sq by (simp add: matvec_def)
  moreover have "linalg_solve m y = Inr s" using g sq y by (simp add: linalg_solve_def)
  ultimately show ?thesis using ls by blast
qed

lemma pos_def_nonsingular:
  assumes "pos_def m"
  shows "nonsingular (nrows m) (rows m)"
  unfolding nonsingular_def
proof (intro allI impI)
  fix z :: vec
  assume lz: "length z = nrows m" and hom: "\<forall>r\<in>set (rows m). dot r z = 0"
  from hom have "map (\<lambda>r. dot r z) (rows m) = replicate (length (rows m)) 0"
    by (intro map_const_zero) simp
  then have "quad_form m z = 0" by (simp add: quad_form_def)
  with assms lz show "z = replicate (nrows m) 0"
    unfolding pos_def_def by (metis less_irrefl)
qed

lemma dot_diff:
  "length a = length c \<Longrightarrow> dot r (map2 (-) a c) = dot r a - dot r c"
proof (induction a c arbitrary: r rule: list_induct2)
  case Nil
  then show ?case by simp
next
  case (Cons x a y c)
  then show ?case by (cases r) (simp_all add: algebra_simps)
qed

lemma map2_diff_zero:
  "length a = length c \<Longrightarrow> map2 (-) a c = replicate (length a) (0::real) \<Longrightarrow> a = c"
  by (induction a c rule: list_induct2) simp_all

lemma nonsingular_unique:
  assumes ns: "nonsingular (nrows m) (rows m)" and sq: "nrows m = ncols m"
    and s: "matvec m s = Inr y" and s': "matvec m s' = Inr y"
  shows "s' = s"
proof -
  from s s' sq have ls: "length s = nrows m" "length s' = nrows m"
    and e: "map (\<lambda>r. dot r s') (rows m) = map (\<lambda>r. dot r s) (rows m)"
    by (auto simp: matvec_def split: if_splits)
  have "dot r (map2 (-) s' s) = 0" if "r \<in> set (rows m)" for r
  proof -
    from e that have "dot r s' = dot r s" by simp
    then show ?thesis using ls by (simp add: dot_diff)
  qed
  with ns ls have "map2 (-) s' s = replicate (nrows m) 0"
    unfolding nonsingular_def by simp
  with ls show ?thesis using map2_diff_zero [of s' s] by simp
qed

lemma dot_commute: "dot a c = dot c a"
proof (induction a arbitrary: c)
  case Nil
  then show ?case by simp
next
  case (Cons x a)
  then show ?case by (cases c) simp_all
qed

lemma dot_zero_left [simp]: "dot (replicate n 0) r = 0"
  by (subst dot_commute) simp

lemma dot_self_nonneg: "0 \<le> dot z z"
  by (induction z) simp_all

lemma dot_self_pos: "z \<noteq> replicate (length z) 0 \<Longrightarrow> 0 < dot z z"
proof (induction z)
  case Nil
  then show ?case by simp
next
  case (Cons a z)
  show ?case
  proof (cases "a = 0")
    case True
    with Cons show ?thesis by simp
  next
    case False
    then have "0 < a * a" by (cases "0 < a") (auto simp: zero_less_mult_iff)
    with dot_self_nonneg [of z] show ?thesis by simp
  qed
qed

text \<open>
  Conversely, a solution the elimination returns solves the system, and the elimination
  succeeds on nonsingular systems only. So \<open>linalg_solve\<close> returns \<open>s\<close> exactly when the
  matrix is square and nonsingular and \<open>s\<close> is the solution.
\<close>

lemma gauss_sound:
  "sys_wf n sys \<Longrightarrow> gauss n sys = Some s
     \<Longrightarrow> length s = n \<and> solves sys s \<and> nonsingular n (map fst sys)"
proof (induction n arbitrary: sys s)
  case 0
  then show ?case by (simp add: sys_wf_def solves_def nonsingular_def)
next
  case (Suc n)
  from Suc.prems(1) have len: "length sys = Suc n"
    and rl: "\<And>eq. eq \<in> set sys \<Longrightarrow> length (fst eq) = Suc n"
    by (simp_all add: sys_wf_def list_all_iff)
  from Suc.prems(2) obtain pivot s' where f: "find (\<lambda>eq. hd (fst eq) \<noteq> 0) sys = Some pivot"
    and g: "gauss n (map (eliminate pivot) (remove1 pivot sys)) = Some s'"
    and s: "s = (snd pivot - dot (tl (fst pivot)) s') / hd (fst pivot) # s'"
    by (auto split: option.splits)
  from f have pin: "pivot \<in> set sys" and pnz: "hd (fst pivot) \<noteq> 0"
    by (auto simp: find_Some_iff)
  obtain r y where pv: "pivot = (r, y)" by (cases pivot) auto
  from rl [OF pin] pv have "length r = Suc n" by simp
  then obtain a r' where r: "r = a # r'" and lr': "length r' = n"
    by (auto simp: length_Suc_conv)
  from pnz pv r have a: "a \<noteq> 0" by simp
  define rest where "rest = remove1 pivot sys"
  define sys' where "sys' = map (eliminate pivot) rest"
  have lrest: "length rest = n" using pin len by (simp add: rest_def length_remove1)
  have rest_in: "\<And>eq. eq \<in> set rest \<Longrightarrow> eq \<in> set sys"
    unfolding rest_def using set_remove1_subset [of pivot sys] by blast
  have setsys: "set sys = insert pivot (set rest)"
    unfolding rest_def by (rule set_remove1_insert [OF pin])
  have shape: "\<exists>c rr. fst eq = c # rr \<and> length rr = n" if "eq \<in> set rest" for eq
    using rl [OF rest_in [OF that]] by (auto simp: length_Suc_conv)
  have elim: "eliminate pivot eq = (map2 (\<lambda>t u. t - (c / a) * u) rr r', y2 - (c / a) * y)"
    if "eq = (c # rr, y2)" for eq c rr y2
    by (simp add: eliminate_def pv r that)
  have wf': "sys_wf n sys'"
    unfolding sys_wf_def list_all_iff sys'_def
  proof (intro conjI ballI)
    show "length (map (eliminate pivot) rest) = n" by (simp add: lrest)
    fix e assume "e \<in> set (map (eliminate pivot) rest)"
    then obtain eq where eq: "eq \<in> set rest" "e = eliminate pivot eq" by auto
    from shape [OF eq(1)] obtain c rr where "fst eq = c # rr" "length rr = n" by blast
    then have "eq = (c # rr, snd eq)" by (cases eq) simp
    from elim [OF this] eq(2) \<open>length rr = n\<close> lr' show "length (fst e) = n" by simp
  qed
  from g have g': "gauss n sys' = Some s'" by (simp add: sys'_def rest_def)
  from Suc.IH [OF wf' g'] have ls': "length s' = n" and sol: "solves sys' s'"
    and ns': "nonsingular n (map fst sys')" by simp_all
  define s0 where "s0 = (y - dot r' s') / a"
  have s_eq: "s = s0 # s'" by (simp add: s s0_def pv r)
  have "dot (fst eq) (s0 # s') = snd eq" if "eq \<in> set sys" for eq
  proof -
    from that setsys consider "eq = pivot" | "eq \<in> set rest" by auto
    then show ?thesis
    proof cases
      case 1
      with pv r a show ?thesis by (simp add: s0_def)
    next
      case 2
      from shape [OF 2] obtain c rr where ce: "fst eq = c # rr" and lrr: "length rr = n" by blast
      then have eqf: "eq = (c # rr, snd eq)" by (cases eq) simp
      have "eliminate pivot eq \<in> set sys'" using 2 by (simp add: sys'_def)
      with sol have "dot (fst (eliminate pivot eq)) s' = snd (eliminate pivot eq)"
        by (simp add: solves_def list_all_iff)
      moreover have "dot (fst (eliminate pivot eq)) s' = dot rr s' - (c / a) * dot r' s'"
        unfolding elim [OF eqf] fst_conv by (rule dot_eliminated) (simp add: lrr lr')
      moreover have "snd (eliminate pivot eq) = snd eq - (c / a) * y"
        unfolding elim [OF eqf] by simp
      ultimately have "dot rr s' - (c / a) * dot r' s' = snd eq - (c / a) * y" by simp
      with a show ?thesis unfolding ce s0_def by (simp add: field_simps)
    qed
  qed
  then have S: "solves sys s" by (simp add: solves_def list_all_iff s_eq)
  have N: "nonsingular (Suc n) (map fst sys)"
    unfolding nonsingular_def
  proof (intro allI impI)
    fix z :: vec
    assume lz: "length z = Suc n" and hom: "\<forall>q\<in>set (map fst sys). dot q z = 0"
    from lz obtain z0 z' where z: "z = z0 # z'" and lz': "length z' = n"
      by (auto simp: length_Suc_conv)
    from hom pin pv r z have p0: "a * z0 + dot r' z' = 0" by force
    have "dot q z' = 0" if "q \<in> set (map fst sys')" for q
    proof -
      from that obtain eq where eq: "eq \<in> set rest" "q = fst (eliminate pivot eq)"
        by (auto simp: sys'_def)
      from shape [OF eq(1)] obtain c rr where ce: "fst eq = c # rr" and lrr: "length rr = n" by blast
      then have eqf: "eq = (c # rr, snd eq)" by (cases eq) simp
      from hom rest_in [OF eq(1)] have "dot (fst eq) z = 0" by simp
      then have e0: "c * z0 + dot rr z' = 0" by (simp add: ce z)
      have "dot q z' = dot rr z' - (c / a) * dot r' z'"
        unfolding eq(2) elim [OF eqf] fst_conv by (rule dot_eliminated) (simp add: lrr lr')
      also from p0 have "dot r' z' = - a * z0" by (simp add: algebra_simps)
      finally show ?thesis using e0 a by (simp add: field_simps)
    qed
    with ns' lz' have z'0: "z' = replicate n 0" by (simp add: nonsingular_def)
    with p0 a have "z0 = 0" by simp
    with z'0 z show "z = replicate (Suc n) 0" by simp
  qed
  from S N ls' s_eq show ?case by simp
qed

lemma linalg_solve_Inr_iff:
  assumes m: "wf_mat m"
  shows "linalg_solve m y = Inr s \<longleftrightarrow>
           nrows m = ncols m \<and> nonsingular (nrows m) (rows m) \<and> matvec m s = Inr y"
proof
  assume L: "linalg_solve m y = Inr s"
  then have sq: "nrows m = ncols m" and ly: "length y = nrows m"
    and g: "gauss (nrows m) (zip (rows m) y) = Some s"
    by (auto simp: linalg_solve_def split: if_splits option.splits)
  have len: "length (rows m) = length y" using m ly by (simp add: wf_mat_length)
  have "sys_wf (nrows m) (zip (rows m) y)"
    unfolding sys_wf_def list_all_iff
  proof (intro conjI ballI)
    show "length (zip (rows m) y) = nrows m" using len ly by simp
    fix eq assume "eq \<in> set (zip (rows m) y)"
    then have "fst eq \<in> set (rows m)" by (metis prod.collapse set_zip_leftD)
    then show "length (fst eq) = nrows m" using m sq by (simp add: wf_mat_rowD)
  qed
  from gauss_sound [OF this g] len sq
  show "nrows m = ncols m \<and> nonsingular (nrows m) (rows m) \<and> matvec m s = Inr y"
    by (simp add: solves_zip matvec_def)
next
  assume R: "nrows m = ncols m \<and> nonsingular (nrows m) (rows m) \<and> matvec m s = Inr y"
  then have sq: "nrows m = ncols m" and ns: "nonsingular (nrows m) (rows m)"
    and ms: "matvec m s = Inr y" by blast+
  from ms have ly: "length y = nrows m" using m
    by (auto simp: matvec_def wf_mat_length split: if_splits)
  from linalg_solve_nonsingular [OF m sq ly ns] obtain s1 where
    s1: "linalg_solve m y = Inr s1" "matvec m s1 = Inr y" by blast
  have "s = s1" by (rule nonsingular_unique [OF ns sq s1(2) ms])
  with s1 show "linalg_solve m y = Inr s" by simp
qed

section \<open>The matrix of the linear system is positive definite\<close>

lemma sum_dot_rows:
  assumes m: "wf_mat m" and c: "length c = ncols m"
  shows "(\<Sum>d<nrows m. z ! d * dot (rows m ! d) c) = dot (comb m z) c"
proof -
  have "(\<Sum>d<nrows m. z ! d * dot (rows m ! d) c)
      = (\<Sum>d<nrows m. \<Sum>j<ncols m. z ! d * (rows m ! d ! j * c ! j))"
    by (rule sum.cong [OF refl]) (simp add: dot_sum wf_mat_nthD [OF m] c sum_distrib_left)
  also have "\<dots> = (\<Sum>j<ncols m. \<Sum>d<nrows m. z ! d * (rows m ! d ! j * c ! j))"
    by (rule sum.swap)
  also have "\<dots> = (\<Sum>j<ncols m. (\<Sum>d<nrows m. rows m ! d ! j * z ! d) * c ! j)"
    unfolding sum_distrib_right by (intro sum.cong refl) (simp add: mult_ac)
  also have "\<dots> = dot (comb m z) c"
    using c by (simp add: dot_sum comb_def)
  finally show ?thesis .
qed

lemma dot_row_times_mat:
  assumes d: "wf_mat dl" and sq: "nrows dl = ncols dl" and r: "length r = nrows dl"
    and y: "length y = nrows dl"
  shows "dot (map (\<lambda>l. dot r (map (\<lambda>vr. vr ! l) (rows dl))) [0..<ncols dl]) y
         = dot r (map (\<lambda>row. dot row y) (rows dl))"
proof -
  let ?n = "nrows dl"
  have lr: "length (rows dl) = ?n" using d by (simp add: wf_mat_length)
  have "dot (map (\<lambda>l. dot r (map (\<lambda>vr. vr ! l) (rows dl))) [0..<ncols dl]) y
      = (\<Sum>l<?n. (\<Sum>j<?n. r ! j * rows dl ! j ! l) * y ! l)"
    using sq y r lr by (simp add: dot_sum)
  also have "\<dots> = (\<Sum>l<?n. \<Sum>j<?n. r ! j * (rows dl ! j ! l * y ! l))"
    unfolding sum_distrib_right by (intro sum.cong refl) (simp add: mult_ac)
  also have "\<dots> = (\<Sum>j<?n. \<Sum>l<?n. r ! j * (rows dl ! j ! l * y ! l))"
    by (rule sum.swap)
  also have "\<dots> = (\<Sum>j<?n. r ! j * dot (rows dl ! j) y)"
    by (rule sum.cong [OF refl]) (simp add: dot_sum wf_mat_nthD [OF d] sq [symmetric] y sum_distrib_left)
  also have "\<dots> = dot r (map (\<lambda>row. dot row y) (rows dl))"
    using r lr by (simp add: dot_sum)
  finally show ?thesis .
qed

lemma col_transpose:
  assumes "wf_mat m" "e < nrows m"
  shows "map (\<lambda>vr. vr ! e) (rows (transpose_mat m)) = rows m ! e"
proof -
  have "map (\<lambda>vr. vr ! e) (rows (transpose_mat m)) = map (\<lambda>j. rows m ! e ! j) [0..<ncols m]"
    using assms by (simp add: transpose_mat_def wf_mat_length)
  also have "\<dots> = rows m ! e"
    using wf_mat_nthD [OF assms] map_nth [of "rows m ! e"] by simp
  finally show ?thesis .
qed

lemma system_matrix_entries:
  assumes Phi: "wf_mat Phi" and sh: "ncols Phi = nrows dl" and sq: "nrows dl = ncols dl"
  shows "\<exists>m. system_matrix Phi dl = Inr m \<and> nrows m = nrows Phi \<and> ncols m = nrows Phi
           \<and> length (rows m) = nrows Phi
           \<and> (\<forall>d<nrows Phi. rows m ! d
                = map (\<lambda>e. dot (row_times (rows Phi ! d) dl) (rows Phi ! e) + (if d = e then 1 else 0))
                    [0..<nrows Phi])"
proof -
  let ?D = "nrows Phi"
  define pd where "pd = \<lparr>nrows = ?D, ncols = ncols dl, rows = map (\<lambda>r. row_times r dl) (rows Phi)\<rparr>"
  define pdp where "pdp = \<lparr>nrows = ?D, ncols = ?D,
      rows = map (\<lambda>r. map (\<lambda>e. dot (row_times r dl) (rows Phi ! e)) [0..<?D]) (rows Phi)\<rparr>"
  define m where "m = pdp\<lparr>rows := map2 (map2 (+)) (rows pdp) (rows (eye ?D))\<rparr>"
  have 1: "matmul Phi dl = Inr pd"
    using sh by (simp add: matmul_def pd_def row_times_def)
  have "map (\<lambda>e. dot q (map (\<lambda>vr. vr ! e) (rows (transpose_mat Phi)))) [0..<?D]
      = map (\<lambda>e. dot q (rows Phi ! e)) [0..<?D]" for q
    by (rule map_cong [OF refl]) (simp add: col_transpose [OF Phi])
  then have 2: "matmul pd (transpose_mat Phi) = Inr pdp"
    using sh sq by (simp add: matmul_def pd_def pdp_def transpose_mat_def o_def)
  have 3: "mat_add pdp (eye ?D) = Inr m"
    by (simp add: mat_add_def m_def pdp_def eye_def)
  have sm: "system_matrix Phi dl = Inr m"
    unfolding system_matrix_def 1 2 3 bindE_simps ..
  have lr: "length (rows Phi) = ?D" using Phi by (simp add: wf_mat_length)
  have "rows m ! d = map (\<lambda>e. dot (row_times (rows Phi ! d) dl) (rows Phi ! e) + (if d = e then 1 else 0)) [0..<?D]"
    if "d < ?D" for d
    using that lr by (simp add: m_def pdp_def eye_def map2_map_map)
  moreover have "nrows m = ?D" "ncols m = ?D" "length (rows m) = ?D"
    using lr by (simp_all add: m_def pdp_def eye_def)
  ultimately show ?thesis using sm by blast
qed

lemma quad_form_system_matrix:
  assumes Phi: "wf_mat Phi" and dl: "wf_mat dl" and sh: "ncols Phi = nrows dl"
    and sq: "nrows dl = ncols dl" and m: "system_matrix Phi dl = Inr m"
    and z: "length z = nrows Phi"
  shows "quad_form m z = quad_form dl (comb Phi z) + dot z z"
proof -
  let ?D = "nrows Phi"
  let ?y = "comb Phi z"
  let ?dy = "map (\<lambda>row. dot row ?y) (rows dl)"
  from system_matrix_entries [OF Phi sh sq] m have lm: "length (rows m) = ?D"
    and rm: "\<And>d. d < ?D \<Longrightarrow> rows m ! d
                = map (\<lambda>e. dot (row_times (rows Phi ! d) dl) (rows Phi ! e) + (if d = e then 1 else 0))
                    [0..<?D]"
    by auto
  have ly: "length ?y = nrows dl" by (simp add: comb_def sh)
  have ldy: "length ?dy = ncols Phi" using dl sh by (simp add: wf_mat_length)
  have row: "dot (rows m ! d) z = dot (rows Phi ! d) ?dy + z ! d" if d: "d < ?D" for d
  proof -
    have lq: "length (row_times (rows Phi ! d) dl) = ncols Phi"
      by (simp add: row_times_def sq [symmetric] sh)
    have "dot (rows m ! d) z
        = (\<Sum>e<?D. (dot (row_times (rows Phi ! d) dl) (rows Phi ! e) + (if d = e then 1 else 0)) * z ! e)"
      using z by (simp add: rm [OF d] dot_sum)
    also have "\<dots> = (\<Sum>e<?D. z ! e * dot (rows Phi ! e) (row_times (rows Phi ! d) dl))
                    + (\<Sum>e<?D. (if d = e then 1 else 0) * z ! e)"
      unfolding sum.distrib [symmetric]
      by (intro sum.cong refl) (simp add: algebra_simps dot_commute)
    also have "(\<Sum>e<?D. (if d = e then 1 else 0) * z ! e) = z ! d"
      using d by (simp add: if_distrib [of "\<lambda>t. t * _"] cong: if_cong)
    also have "(\<Sum>e<?D. z ! e * dot (rows Phi ! e) (row_times (rows Phi ! d) dl))
        = dot ?y (row_times (rows Phi ! d) dl)"
      by (rule sum_dot_rows [OF Phi lq])
    also have "\<dots> = dot (row_times (rows Phi ! d) dl) ?y"
      by (rule dot_commute)
    also have "\<dots> = dot (rows Phi ! d) ?dy"
      unfolding row_times_def
      by (rule dot_row_times_mat [OF dl sq _ ly]) (simp add: wf_mat_nthD [OF Phi d] sh)
    finally show ?thesis .
  qed
  have "quad_form m z = (\<Sum>d<?D. z ! d * dot (rows m ! d) z)"
    using z lm by (simp add: quad_form_def dot_sum)
  also have "\<dots> = (\<Sum>d<?D. z ! d * dot (rows Phi ! d) ?dy + z ! d * z ! d)"
    by (rule sum.cong [OF refl]) (simp add: row distrib_left)
  also have "\<dots> = (\<Sum>d<?D. z ! d * dot (rows Phi ! d) ?dy) + (\<Sum>d<?D. z ! d * z ! d)"
    by (rule sum.distrib)
  also have "(\<Sum>d<?D. z ! d * dot (rows Phi ! d) ?dy) = dot ?y ?dy"
    by (rule sum_dot_rows [OF Phi ldy])
  also have "(\<Sum>d<?D. z ! d * z ! d) = dot z z"
    using z by (simp add: dot_sum)
  finally show ?thesis by (simp add: quad_form_def)
qed

lemma system_matrix_pos_def:
  assumes Phi: "wf_mat Phi" and dl: "pos_def dl" and sh: "ncols Phi = nrows dl"
  shows "\<exists>m. system_matrix Phi dl = Inr m \<and> pos_def m \<and> nrows m = nrows Phi"
proof -
  from dl have wdl: "wf_mat dl" and sq: "nrows dl = ncols dl"
    and pd: "\<And>y. length y = nrows dl \<Longrightarrow> y \<noteq> replicate (nrows dl) 0 \<Longrightarrow> 0 < quad_form dl y"
    by (simp_all add: pos_def_def)
  from system_matrix_entries [OF Phi sh sq] obtain m where
    m: "system_matrix Phi dl = Inr m" and nr: "nrows m = nrows Phi" and nc: "ncols m = nrows Phi"
    and lm: "length (rows m) = nrows Phi"
    and rm: "\<And>d. d < nrows Phi \<Longrightarrow> rows m ! d
                = map (\<lambda>e. dot (row_times (rows Phi ! d) dl) (rows Phi ! e) + (if d = e then 1 else 0))
                    [0..<nrows Phi]"
    by blast
  have wm: "wf_mat m"
    unfolding wf_mat_def list_all_length using lm nr nc by (simp add: rm)
  have "0 < quad_form m z" if lz: "length z = nrows m" and nz: "z \<noteq> replicate (nrows m) 0" for z
  proof -
    from lz nr have lz': "length z = nrows Phi" by simp
    have q: "quad_form m z = quad_form dl (comb Phi z) + dot z z"
      by (rule quad_form_system_matrix [OF Phi wdl sh sq m lz'])
    have ly: "length (comb Phi z) = nrows dl" by (simp add: comb_def sh)
    have "0 \<le> quad_form dl (comb Phi z)"
    proof (cases "comb Phi z = replicate (nrows dl) 0")
      case True
      then show ?thesis by (simp add: quad_form_def)
    next
      case False
      from pd [OF ly False] show ?thesis by simp
    qed
    moreover from nz lz have "0 < dot z z" by (intro dot_self_pos) simp
    ultimately show ?thesis unfolding q by simp
  qed
  with wm nr nc have "pos_def m" by (simp add: pos_def_def)
  with m nr show ?thesis by blast
qed

lemma sampler_returns:
  assumes Phi: "wf_mat Phi" and dl: "pos_def dl" and sh: "ncols Phi = nrows dl"
    and alpha: "length alpha = nrows Phi"
  shows "\<exists>th. sample_gaussian_efficient Phi alpha (Arr2 dl) g = Inr (Sample th) \<and> length th = ncols Phi"
proof -
  let ?D = "nrows Phi" and ?N = "ncols Phi"
  from dl have wdl: "wf_mat dl" and sq: "nrows dl = ncols dl" by (simp_all add: pos_def_def)
  define u where "u = map (\<lambda>i. replicate ?N (0::real) ! i + mvn_u g i) [0..<?N]"
  have 1: "sample_u ?N (Arr2 dl) g = Inr (False, u, dl)"
    using sh sq by (simp add: sample_u_def rng_multivariate_normal_def u_def)
  have lu: "length u = ?N" by (simp add: u_def)
  define phi_u where "phi_u = map (\<lambda>r. dot r u) (rows Phi)"
  have 2: "matvec Phi u = Inr phi_u" using lu by (simp add: matvec_def phi_u_def)
  have lp: "length phi_u = ?D" using Phi by (simp add: phi_u_def wf_mat_length)
  have "\<exists>v. rng_normal phi_u (replicate ?D 1) (normal_v g) = Inr v \<and> length v = ?D"
    using lp by (simp add: rng_normal_def np_binop_def list_ex_iff)
  then obtain v where 3: "rng_normal phi_u (replicate ?D 1) (normal_v g) = Inr v"
    and lv: "length v = ?D" by blast
  from system_matrix_pos_def [OF Phi dl sh] obtain m where 4: "system_matrix Phi dl = Inr m"
    and pm: "pos_def m" and nm: "nrows m = ?D" by blast
  define rhs where "rhs = map2 (-) alpha v"
  have 5: "np_binop (-) alpha v = Inr rhs" using alpha lv by (simp add: np_binop_def rhs_def)
  have lrhs: "length rhs = nrows m" using alpha lv nm by (simp add: rhs_def)
  from pm have "wf_mat m" "nrows m = ncols m" by (simp_all add: pos_def_def)
  from linalg_solve_nonsingular [OF this lrhs pos_def_nonsingular [OF pm]]
  obtain w where 6: "linalg_solve m rhs = Inr w" and lw: "length w = ?D"
    using nm by auto
  define dp where "dp = \<lparr>nrows = nrows dl, ncols = ?D,
      rows = map (\<lambda>r. map (\<lambda>k. dot r (map (\<lambda>vr. vr ! k) (rows (transpose_mat Phi)))) [0..<?D])
               (rows dl)\<rparr>"
  have 7: "matmul dl (transpose_mat Phi) = Inr dp"
    using sh sq by (simp add: matmul_def transpose_mat_def dp_def)
  define dpw where "dpw = map (\<lambda>r. dot r w) (rows dp)"
  have 8: "matvec dp w = Inr dpw" using lw by (simp add: matvec_def dpw_def dp_def)
  have ldpw: "length dpw = ?N" using wdl sh by (simp add: dpw_def dp_def wf_mat_length)
  have 9: "np_binop (+) u dpw = Inr (map2 (+) u dpw)" using lu ldpw by (simp add: np_binop_def)
  have "sample_gaussian_efficient Phi alpha (Arr2 dl) g = Inr (Sample (map2 (+) u dpw))"
    unfolding sample_gaussian_efficient_def Let_def 1 bindE_simps prod.case 2 3 4 5 6 7 8 9 if_False ..
  moreover have "length (map2 (+) u dpw) = ?N" using lu ldpw by simp
  ultimately show ?thesis by blast
qed

lemma sm0: "system_matrix x0 Delta0 = Inr M0"
  by (simp add: x0_def Delta0_def M0_def ev_sampler)

lemma solve0: "linalg_solve M0 [- 4, - 7] = Inr [- 76 / 101, 23 / 101]"
  by (simp add: M0_def ev_sampler)

lemma sample0:
  "sample_gaussian_efficient x0 [1, 2] (Arr2 Delta0) rng0 = Inr (Sample [27 / 101, - 26 / 101])"
  by (simp add: x0_def Delta0_def ev_sampler)

lemma pos_def_Delta0: "pos_def Delta0"
  unfolding pos_def_def
proof (intro conjI allI impI)
  show "wf_mat Delta0" "nrows Delta0 = ncols Delta0" by (simp_all add: Delta0_def wf_mat_def)
  fix z :: vec
  assume "length z = nrows Delta0" and nz: "z \<noteq> replicate (nrows Delta0) 0"
  then obtain a c where z: "z = [a, c]"
    by (auto simp: Delta0_def numeral_2_eq_2 length_Suc_conv)
  from nz z have "a \<noteq> 0 \<or> c \<noteq> 0" by (auto simp: Delta0_def numeral_2_eq_2)
  then have "0 < a\<^sup>2 + c\<^sup>2" by (simp add: sum_power2_gt_zero_iff)
  moreover have "quad_form Delta0 z = a\<^sup>2 + c\<^sup>2 + (a + c)\<^sup>2"
    by (simp add: quad_form_def Delta0_def z power2_eq_square algebra_simps)
  moreover have "0 \<le> (a + c)\<^sup>2" by simp
  ultimately show "0 < quad_form Delta0 z" by linarith
qed

text \<open>
  Claim C6. For \<open>Phi\<close> of shape \<open>D \<times> N\<close> and a symmetric positive definite \<open>Delta\<close> of
  shape \<open>N \<times> N\<close>, the matrix \<open>Phi @ Delta @ Phi.T + np.eye(D)\<close> is positive definite. For
  every right-hand side of length \<open>D\<close> the linear solve returns a solution, which is the
  only one, and the sampler as a whole returns a vector whenever \<open>alpha\<close> has length \<open>D\<close>.
\<close>

theorem solve_step_never_fails:
  assumes "wf_mat Phi" and "symmetric Delta" and "pos_def Delta" and "ncols Phi = nrows Delta"
  shows "\<exists>m. system_matrix Phi Delta = Inr m \<and> pos_def m
           \<and> (\<forall>y. length y = nrows Phi \<longrightarrow>
                 (\<exists>s. linalg_solve m y = Inr s \<and> matvec m s = Inr y
                      \<and> (\<forall>s'. matvec m s' = Inr y \<longrightarrow> s' = s)))
           \<and> (\<forall>alpha g. length alpha = nrows Phi \<longrightarrow>
                 (\<exists>th. sample_gaussian_efficient Phi alpha (Arr2 Delta) g = Inr (Sample th)))"
proof -
  from system_matrix_pos_def [OF assms(1,3,4)] obtain m where m: "system_matrix Phi Delta = Inr m"
    and pm: "pos_def m" and nm: "nrows m = nrows Phi" by blast
  from pm have wm: "wf_mat m" and sq: "nrows m = ncols m" by (simp_all add: pos_def_def)
  note ns = pos_def_nonsingular [OF pm]
  have "\<exists>s. linalg_solve m y = Inr s \<and> matvec m s = Inr y \<and> (\<forall>s'. matvec m s' = Inr y \<longrightarrow> s' = s)"
    if "length y = nrows Phi" for y
  proof -
    from that nm have "length y = nrows m" by simp
    from linalg_solve_nonsingular [OF wm sq this ns] obtain s where
      s: "linalg_solve m y = Inr s" "matvec m s = Inr y" by blast
    have "s' = s" if "matvec m s' = Inr y" for s'
      by (rule nonsingular_unique [OF ns sq s(2) that])
    with s show ?thesis by blast
  qed
  moreover have "\<exists>th. sample_gaussian_efficient Phi alpha (Arr2 Delta) g = Inr (Sample th)"
    if "length alpha = nrows Phi" for alpha g
    using sampler_returns [OF assms(1,3,4) that] by blast
  ultimately show ?thesis using m pm by blast
qed

theorem solve_step_never_fails_witness:
  "wf_mat x0 \<and> symmetric Delta0 \<and> pos_def Delta0 \<and> ncols x0 = nrows Delta0
   \<and> system_matrix x0 Delta0 = Inr M0 \<and> pos_def M0
   \<and> linalg_solve M0 [- 4, - 7] = Inr [- 76 / 101, 23 / 101]
   \<and> matvec M0 [- 76 / 101, 23 / 101] = Inr [- 4, - 7]
   \<and> sample_gaussian_efficient x0 [1, 2] (Arr2 Delta0) rng0
       = Inr (Sample [27 / 101, - 26 / 101])"
proof -
  have h1: "wf_mat x0" "ncols x0 = nrows Delta0"
    by (simp_all add: x0_def wf_mat_def Delta0_def)
  have h2: "symmetric Delta0"
    by (simp add: symmetric_def Delta0_def numeral_2_eq_2 less_Suc_eq)
  note h = h1(1) h2 pos_def_Delta0 h1(2)
  from solve_step_never_fails [OF h] sm0 have "pos_def M0" by auto
  moreover have "matvec M0 [- 76 / 101, 23 / 101] = Inr [- 4, - 7]"
    by (simp add: M0_def matvec_def)
  ultimately show ?thesis using h sm0 solve0 sample0 by simp
qed

section \<open>What the sampler rejects\<close>

text \<open>
  Claim C8, as stated, fails: the function validates nothing itself. A \<open>Delta\<close> that is not
  positive definite is accepted: for the one-dimensional \<open>Delta = [0]\<close> the call returns a
  vector, and for \<open>Delta = [-4]\<close> it returns an array that holds nan. An \<open>alpha\<close> of length 1
  against a \<open>Phi\<close> with two rows is broadcast, and the call returns a vector.
\<close>

theorem sampler_accepts_invalid_input_counterexample:
  "sample_gaussian_efficient Phi1 [0] (Arr1 [0]) rng0 = Inr (Sample [0])
   \<and> sample_gaussian_efficient Phi1 [0] (Arr1 [- 4]) rng0 = Inr Sample_nan
   \<and> sample_gaussian_efficient x0 [1] (Arr2 Delta0) rng0 = Inr (Sample [5 / 101, - 31 / 101])"
  by (simp add: Phi1_def x0_def Delta0_def ev_sampler)

lemma bindE_not_ValueError:
  assumes "bindE m f \<noteq> Inl ValueError" and "\<And>e. m = Inl e \<Longrightarrow> e = ValueError"
  obtains a where "m = Inr a" and "f a \<noteq> Inl ValueError"
  using assms by (cases m) auto

lemma np_binop_Inl: "np_binop f a c = Inl e \<Longrightarrow> e = ValueError"
  by (auto simp: np_binop_def split: if_splits)

lemma np_binop_length:
  "np_binop f a c = Inr r \<Longrightarrow>
     length a = length c \<and> length r = length c
     \<or> length a = 1 \<and> length r = length c
     \<or> length c = 1 \<and> length r = length a"
  by (auto simp: np_binop_def split: if_splits)

lemma rng_normal_Inl: "rng_normal loc sc z = Inl e \<Longrightarrow> e = ValueError"
  by (cases "np_binop (\<lambda>l s. (l, s)) loc sc") (auto simp: rng_normal_def split: if_splits dest: np_binop_Inl)

lemma rng_normal_length:
  "rng_normal loc sc z = Inr v \<Longrightarrow>
     length loc = length sc \<and> length v = length sc
     \<or> length loc = 1 \<and> length v = length sc
     \<or> length sc = 1 \<and> length v = length loc"
  by (auto simp: rng_normal_def bindE_eq_Inr split: if_splits dest!: np_binop_length)

lemma sample_u_Inl: "sample_u N Delta g = Inl e \<Longrightarrow> e = ValueError"
proof (cases Delta)
  case (Arr1 d)
  assume "sample_u N Delta g = Inl e"
  with Arr1 show ?thesis
    by (cases "rng_normal (replicate N 0) (snd (np_sqrt d)) (normal_u g)")
      (auto simp: sample_u_def split: prod.splits dest: rng_normal_Inl)
next
  case (Arr2 m)
  assume "sample_u N Delta g = Inl e"
  with Arr2 show ?thesis
    by (auto simp: sample_u_def rng_multivariate_normal_def split: if_splits)
qed

lemma sample_u_shape:
  assumes "sample_u N Delta g = Inr (nan, u, Delta')"
  shows "case Delta of
           Arr1 d \<Rightarrow> nrows Delta' = length d \<and>
                     (length d = N \<or> N = 1 \<and> length u = length d \<or> length d = 1)
         | Arr2 m \<Rightarrow> nrows m = N \<and> ncols m = N"
proof (cases Delta)
  case (Arr1 d)
  with assms obtain sd where "rng_normal (replicate N 0) (map (\<lambda>t. if t < 0 then 0 else sqrt t) d) (normal_u g) = Inr u"
    and "Delta' = np_diag d"
    by (auto simp: sample_u_def np_sqrt_def bindE_eq_Inr)
  from rng_normal_length [OF this(1)] this(2) Arr1 show ?thesis
    by (auto simp: np_diag_def)
next
  case (Arr2 m)
  with assms show ?thesis
    by (auto simp: sample_u_def rng_multivariate_normal_def split: if_splits)
qed

lemma matvec_Inl: "matvec x w = Inl e \<Longrightarrow> e = ValueError"
  by (auto simp: matvec_def split: if_splits)

lemma matmul_Inl: "matmul x w = Inl e \<Longrightarrow> e = ValueError"
  by (auto simp: matmul_def split: if_splits)

lemma system_matrix_Inl: "system_matrix Phi Delta = Inl e \<Longrightarrow> e = ValueError"
  unfolding system_matrix_def
  by (cases "matmul Phi Delta"; cases "matmul (projr (matmul Phi Delta)) (transpose_mat Phi)")
    (auto simp: mat_add_def dest: matmul_Inl split: if_splits)

lemma system_matrix_shape:
  "system_matrix Phi Delta = Inr m \<Longrightarrow>
     nrows m = nrows Phi \<and> ncols m = nrows Phi \<and> nrows Delta = ncols Phi"
  by (auto simp: system_matrix_def bindE_eq_Inr matmul_def mat_add_def transpose_mat_def eye_def
      split: if_splits)

text \<open>
  Claim C8, amended. With \<open>Phi\<close> of shape \<open>D \<times> N\<close>, the call raises \<open>ValueError\<close>, whatever
  the random draws are, for every \<open>alpha\<close> of a length other than \<open>D\<close> and 1 (such as \<open>D + 1\<close>
  for \<open>D \<ge> 1\<close>), for every two-dimensional \<open>Delta\<close> that is not \<open>N \<times> N\<close>, and for every
  one-dimensional \<open>Delta\<close> of a length other than \<open>N\<close>. A \<open>Delta\<close> that is not positive definite
  is not rejected, and an \<open>alpha\<close> of length 1 is broadcast, as the examples above show.
\<close>

theorem sampler_rejects_shape_mismatch:
  assumes Phi: "wf_mat Phi" and mis: "shape_mismatch Phi alpha Delta"
  shows "sample_gaussian_efficient Phi alpha Delta g = Inl ValueError"
proof (rule ccontr)
  assume "sample_gaussian_efficient Phi alpha Delta g \<noteq> Inl ValueError"
  from this [unfolded sample_gaussian_efficient_def Let_def]
  obtain ud where "sample_u (ncols Phi) Delta g = Inr ud"
    and r1: "(case ud of (nan, u, Delta') \<Rightarrow>
         bindE (matvec Phi u) (\<lambda>phi_u.
         bindE (rng_normal phi_u (replicate (nrows Phi) 1) (normal_v g)) (\<lambda>v.
         bindE (system_matrix Phi Delta') (\<lambda>m.
         bindE (np_binop (-) alpha v) (\<lambda>rhs.
         bindE (linalg_solve m rhs) (\<lambda>w.
         bindE (matmul Delta' (transpose_mat Phi)) (\<lambda>dp.
         bindE (matvec dp w) (\<lambda>dpw.
         bindE (np_binop (+) u dpw) (\<lambda>theta.
           Inr (if nan then Sample_nan else Sample theta)))))))))) \<noteq> Inl ValueError"
    by (rule bindE_not_ValueError) (erule sample_u_Inl)
  moreover obtain nan u Delta' where ud: "ud = (nan, u, Delta')" by (cases ud) auto
  ultimately have su: "sample_u (ncols Phi) Delta g = Inr (nan, u, Delta')" by simp
  from r1 [unfolded ud prod.case]
  obtain phi_u where pu: "matvec Phi u = Inr phi_u"
    and r2: "bindE (rng_normal phi_u (replicate (nrows Phi) 1) (normal_v g)) (\<lambda>v.
         bindE (system_matrix Phi Delta') (\<lambda>m.
         bindE (np_binop (-) alpha v) (\<lambda>rhs.
         bindE (linalg_solve m rhs) (\<lambda>w.
         bindE (matmul Delta' (transpose_mat Phi)) (\<lambda>dp.
         bindE (matvec dp w) (\<lambda>dpw.
         bindE (np_binop (+) u dpw) (\<lambda>theta.
           Inr (if nan then Sample_nan else Sample theta)))))))) \<noteq> Inl ValueError"
    by (rule bindE_not_ValueError) (erule matvec_Inl)
  from pu Phi have lu: "length u = ncols Phi" and lp: "length phi_u = nrows Phi"
    by (auto simp: matvec_def wf_mat_length split: if_splits)
  from r2 obtain v where v: "rng_normal phi_u (replicate (nrows Phi) 1) (normal_v g) = Inr v"
    and r3: "bindE (system_matrix Phi Delta') (\<lambda>m.
         bindE (np_binop (-) alpha v) (\<lambda>rhs.
         bindE (linalg_solve m rhs) (\<lambda>w.
         bindE (matmul Delta' (transpose_mat Phi)) (\<lambda>dp.
         bindE (matvec dp w) (\<lambda>dpw.
         bindE (np_binop (+) u dpw) (\<lambda>theta.
           Inr (if nan then Sample_nan else Sample theta))))))) \<noteq> Inl ValueError"
    by (rule bindE_not_ValueError) (erule rng_normal_Inl)
  from rng_normal_length [OF v] lp have lv: "length v = nrows Phi" by auto
  from r3 obtain m where m: "system_matrix Phi Delta' = Inr m"
    and r4: "bindE (np_binop (-) alpha v) (\<lambda>rhs.
         bindE (linalg_solve m rhs) (\<lambda>w.
         bindE (matmul Delta' (transpose_mat Phi)) (\<lambda>dp.
         bindE (matvec dp w) (\<lambda>dpw.
         bindE (np_binop (+) u dpw) (\<lambda>theta.
           Inr (if nan then Sample_nan else Sample theta)))))) \<noteq> Inl ValueError"
    by (rule bindE_not_ValueError) (erule system_matrix_Inl)
  from system_matrix_shape [OF m]
  have sm: "nrows m = nrows Phi" "ncols m = nrows Phi" and nd: "nrows Delta' = ncols Phi"
    by simp_all
  from r4 obtain rhs where rhs: "np_binop (-) alpha v = Inr rhs"
    and r5: "bindE (linalg_solve m rhs) (\<lambda>w.
         bindE (matmul Delta' (transpose_mat Phi)) (\<lambda>dp.
         bindE (matvec dp w) (\<lambda>dpw.
         bindE (np_binop (+) u dpw) (\<lambda>theta.
           Inr (if nan then Sample_nan else Sample theta))))) \<noteq> Inl ValueError"
    by (rule bindE_not_ValueError) (erule np_binop_Inl)
  from r5 have "linalg_solve m rhs \<noteq> Inl ValueError" by auto
  with sm have lr: "length rhs = nrows Phi"
    by (auto simp: linalg_solve_def split: if_splits)
  from np_binop_length [OF rhs] lv lr
  have alpha: "length alpha = nrows Phi \<or> length alpha = 1" by auto
  from sample_u_shape [OF su] lu nd
  have "case Delta of Arr1 d \<Rightarrow> length d = ncols Phi
        | Arr2 m \<Rightarrow> nrows m = ncols Phi \<and> ncols m = ncols Phi"
    by (cases Delta) auto
  with alpha mis show False
    by (cases Delta) (auto simp: shape_mismatch_def)
qed

theorem sampler_rejects_shape_mismatch_witness:
  "wf_mat x0 \<and> shape_mismatch x0 [1, 2, 3] (Arr2 Delta0)
   \<and> shape_mismatch x0 [1, 2] (Arr1 [1])
   \<and> sample_gaussian_efficient x0 [1, 2, 3] (Arr2 Delta0) rng0 = Inl ValueError
   \<and> sample_gaussian_efficient x0 [1, 2] (Arr1 [1]) rng0 = Inl ValueError"
proof -
  have h: "wf_mat x0" by (simp add: x0_def wf_mat_def)
  have a: "shape_mismatch x0 [1, 2, 3] (Arr2 Delta0)"
    by (simp add: shape_mismatch_def x0_def Delta0_def)
  have b: "shape_mismatch x0 [1, 2] (Arr1 [1])"
    by (simp add: shape_mismatch_def x0_def)
  from sampler_rejects_shape_mismatch [OF h a] sampler_rejects_shape_mismatch [OF h b] h a b
  show ?thesis by simp
qed

section \<open>The algebra of matrices\<close>

lemma matmul_mm: "ncols x = nrows v \<Longrightarrow> matmul x v = Inr (mm x v)"
  by (simp add: matmul_def mm_def)

lemma mat_add_madd: "nrows m = nrows n \<Longrightarrow> ncols m = ncols n \<Longrightarrow> mat_add m n = Inr (madd m n)"
  by (simp add: mat_add_def madd_def)

lemma matvec_mv: "ncols x = length w \<Longrightarrow> matvec x w = Inr (mv x w)"
  by (simp add: matvec_def mv_def)

lemma mat_eqI:
  assumes "wf_mat a" "wf_mat b" "nrows a = nrows b" "ncols a = ncols b"
    and "\<And>i j. i < nrows a \<Longrightarrow> j < ncols a \<Longrightarrow> rows a ! i ! j = rows b ! i ! j"
  shows "a = b"
proof -
  have "rows a = rows b"
  proof (rule nth_equalityI)
    show "length (rows a) = length (rows b)" using assms by (simp add: wf_mat_length)
    fix i assume "i < length (rows a)"
    then have i: "i < nrows a" using assms by (simp add: wf_mat_length)
    show "rows a ! i = rows b ! i"
    proof (rule nth_equalityI)
      show "length (rows a ! i) = length (rows b ! i)" using assms i by (simp add: wf_mat_nthD)
      fix j assume "j < length (rows a ! i)"
      then have "j < ncols a" using assms i by (simp add: wf_mat_nthD)
      with i show "rows a ! i ! j = rows b ! i ! j" by (rule assms(5))
    qed
  qed
  with assms(3,4) show ?thesis by simp
qed

lemma nrows_mm [simp]: "nrows (mm a b) = nrows a"
  by (simp add: mm_def)

lemma ncols_mm [simp]: "ncols (mm a b) = ncols b"
  by (simp add: mm_def)

lemma wf_mm [simp]: "wf_mat a \<Longrightarrow> wf_mat (mm a b)"
  by (simp add: mm_def wf_mat_def list_all_iff)

lemma nrows_madd [simp]: "nrows (madd a b) = nrows a"
  by (simp add: madd_def)

lemma ncols_madd [simp]: "ncols (madd a b) = ncols a"
  by (simp add: madd_def)

lemma wf_madd [simp]:
  "wf_mat a \<Longrightarrow> wf_mat b \<Longrightarrow> nrows a = nrows b \<Longrightarrow> ncols a = ncols b \<Longrightarrow> wf_mat (madd a b)"
  by (simp add: madd_def wf_mat_def list_all_length)

lemma nrows_msub [simp]: "nrows (msub a b) = nrows a"
  by (simp add: msub_def)

lemma ncols_msub [simp]: "ncols (msub a b) = ncols a"
  by (simp add: msub_def)

lemma wf_msub [simp]:
  "wf_mat a \<Longrightarrow> wf_mat b \<Longrightarrow> nrows a = nrows b \<Longrightarrow> ncols a = ncols b \<Longrightarrow> wf_mat (msub a b)"
  by (simp add: msub_def wf_mat_def list_all_length)

lemma nrows_mneg [simp]: "nrows (mneg a) = nrows a"
  by (simp add: mneg_def)

lemma ncols_mneg [simp]: "ncols (mneg a) = ncols a"
  by (simp add: mneg_def)

lemma wf_mneg [simp]: "wf_mat a \<Longrightarrow> wf_mat (mneg a)"
  by (simp add: mneg_def wf_mat_def list_all_length)

lemma nrows_eye [simp]: "nrows (eye n) = n"
  by (simp add: eye_def)

lemma ncols_eye [simp]: "ncols (eye n) = n"
  by (simp add: eye_def)

lemma wf_eye [simp]: "wf_mat (eye n)"
  by (simp add: eye_def wf_mat_def list_all_length)

lemma nrows_tr [simp]: "nrows (transpose_mat a) = ncols a"
  by (simp add: transpose_mat_def)

lemma ncols_tr [simp]: "ncols (transpose_mat a) = nrows a"
  by (simp add: transpose_mat_def)

lemma wf_tr [simp]: "wf_mat a \<Longrightarrow> wf_mat (transpose_mat a)"
  by (simp add: transpose_mat_def wf_mat_def list_all_length)

lemma sum_less_cong:
  "n = m \<Longrightarrow> (\<And>k. k < m \<Longrightarrow> f k = g k) \<Longrightarrow> sum f {..<n} = sum g {..<m}"
  by simp

lemma mm_ent:
  assumes "wf_mat a" "wf_mat b" "ncols a = nrows b" "i < nrows a" "j < ncols b"
  shows "rows (mm a b) ! i ! j = (\<Sum>k<ncols a. rows a ! i ! k * rows b ! k ! j)"
proof -
  have la: "length (rows a ! i) = ncols a" using assms by (simp add: wf_mat_nthD)
  have lb: "length (rows b) = nrows b" using assms by (simp add: wf_mat_length)
  have "rows (mm a b) ! i ! j = dot (rows a ! i) (map (\<lambda>vr. vr ! j) (rows b))"
    using assms by (simp add: mm_def wf_mat_length)
  also have "\<dots> = (\<Sum>k<ncols a. rows a ! i ! k * map (\<lambda>vr. vr ! j) (rows b) ! k)"
    using la lb assms(3) by (simp add: dot_sum)
  also have "\<dots> = (\<Sum>k<ncols a. rows a ! i ! k * rows b ! k ! j)"
    using lb assms(3) by (intro sum.cong refl) simp
  finally show ?thesis .
qed

lemma madd_ent:
  assumes "wf_mat a" "wf_mat b" "nrows a = nrows b" "ncols a = ncols b" "i < nrows a" "j < ncols a"
  shows "rows (madd a b) ! i ! j = rows a ! i ! j + rows b ! i ! j"
  using assms by (simp add: madd_def wf_mat_length wf_mat_nthD)

lemma msub_ent:
  assumes "wf_mat a" "wf_mat b" "nrows a = nrows b" "ncols a = ncols b" "i < nrows a" "j < ncols a"
  shows "rows (msub a b) ! i ! j = rows a ! i ! j - rows b ! i ! j"
  using assms by (simp add: msub_def wf_mat_length wf_mat_nthD)

lemma mneg_ent:
  assumes "wf_mat a" "i < nrows a" "j < ncols a"
  shows "rows (mneg a) ! i ! j = - rows a ! i ! j"
  using assms by (simp add: mneg_def wf_mat_length wf_mat_nthD)

lemma eye_ent: "i < n \<Longrightarrow> j < n \<Longrightarrow> rows (eye n) ! i ! j = (if i = j then 1 else 0)"
  by (simp add: eye_def)

lemma tr_ent:
  "wf_mat a \<Longrightarrow> i < ncols a \<Longrightarrow> j < nrows a \<Longrightarrow> rows (transpose_mat a) ! i ! j = rows a ! j ! i"
  by (simp add: transpose_mat_def wf_mat_length)

lemmas ent = mm_ent madd_ent msub_ent mneg_ent eye_ent tr_ent

lemma mm_assoc:
  assumes "wf_mat a" "wf_mat b" "wf_mat c" "ncols a = nrows b" "ncols b = nrows c"
  shows "mm (mm a b) c = mm a (mm b c)"
proof (rule mat_eqI)
  fix i j assume i: "i < nrows (mm (mm a b) c)" and j: "j < ncols (mm (mm a b) c)"
  then have i': "i < nrows a" and j': "j < ncols c" by simp_all
  have "rows (mm (mm a b) c) ! i ! j
      = (\<Sum>k<ncols b. (\<Sum>l<ncols a. rows a ! i ! l * rows b ! l ! k) * rows c ! k ! j)"
    using assms i' j' by (simp add: ent cong: sum_less_cong)
  also have "\<dots> = (\<Sum>k<ncols b. \<Sum>l<ncols a. rows a ! i ! l * rows b ! l ! k * rows c ! k ! j)"
    by (simp add: sum_distrib_right)
  also have "\<dots> = (\<Sum>l<ncols a. \<Sum>k<ncols b. rows a ! i ! l * rows b ! l ! k * rows c ! k ! j)"
    by (rule sum.swap)
  also have "\<dots> = (\<Sum>l<ncols a. rows a ! i ! l * (\<Sum>k<ncols b. rows b ! l ! k * rows c ! k ! j))"
    by (simp add: sum_distrib_left mult.assoc)
  also have "\<dots> = rows (mm a (mm b c)) ! i ! j"
    using assms i' j' by (simp add: ent cong: sum_less_cong)
  finally show "rows (mm (mm a b) c) ! i ! j = rows (mm a (mm b c)) ! i ! j" .
qed (use assms in simp_all)

lemma mm_madd_left:
  assumes "wf_mat a" "wf_mat b" "wf_mat c" "ncols a = nrows b" "nrows b = nrows c" "ncols b = ncols c"
  shows "mm a (madd b c) = madd (mm a b) (mm a c)"
  by (rule mat_eqI) (use assms in \<open>simp_all add: ent sum.distrib algebra_simps cong: sum_less_cong\<close>)

lemma mm_madd_right:
  assumes "wf_mat a" "wf_mat b" "wf_mat c" "ncols a = nrows c" "nrows a = nrows b" "ncols a = ncols b"
  shows "mm (madd a b) c = madd (mm a c) (mm b c)"
  by (rule mat_eqI) (use assms in \<open>simp_all add: ent sum.distrib algebra_simps cong: sum_less_cong\<close>)

lemma mm_msub_left:
  assumes "wf_mat a" "wf_mat b" "wf_mat c" "ncols a = nrows b" "nrows b = nrows c" "ncols b = ncols c"
  shows "mm a (msub b c) = msub (mm a b) (mm a c)"
  by (rule mat_eqI) (use assms in \<open>simp_all add: ent sum_subtractf algebra_simps cong: sum_less_cong\<close>)

lemma mm_msub_right:
  assumes "wf_mat a" "wf_mat b" "wf_mat c" "ncols a = nrows c" "nrows a = nrows b" "ncols a = ncols b"
  shows "mm (msub a b) c = msub (mm a c) (mm b c)"
  by (rule mat_eqI) (use assms in \<open>simp_all add: ent sum_subtractf algebra_simps cong: sum_less_cong\<close>)

lemma sum_delta_left:
  fixes f :: "nat \<Rightarrow> real"
  shows "i < n \<Longrightarrow> (\<Sum>k<n. (if i = k then 1 else 0) * f k) = f i"
  by (simp add: if_distrib [of "\<lambda>t. t * _"] sum.delta' cong: if_cong)

lemma sum_delta_right:
  fixes f :: "nat \<Rightarrow> real"
  shows "j < n \<Longrightarrow> (\<Sum>k<n. f k * (if k = j then 1 else 0)) = f j"
  by (simp add: if_distrib [of "\<lambda>t. _ * t"] sum.delta cong: if_cong)

lemma mm_eye_left:
  assumes "wf_mat a" "nrows a = n"
  shows "mm (eye n) a = a"
  by (rule mat_eqI) (use assms in \<open>simp_all add: ent sum_delta_left cong: sum_less_cong\<close>)

lemma mm_eye_right:
  assumes "wf_mat a" "ncols a = n"
  shows "mm a (eye n) = a"
  by (rule mat_eqI) (use assms in \<open>simp_all add: ent sum_delta_right cong: sum_less_cong\<close>)

lemma mm_mneg_left:
  assumes "wf_mat a" "wf_mat b" "ncols a = nrows b"
  shows "mm (mneg a) b = mneg (mm a b)"
  by (rule mat_eqI) (use assms in \<open>simp_all add: ent sum_negf cong: sum_less_cong\<close>)

lemma mm_mneg_right:
  assumes "wf_mat a" "wf_mat b" "ncols a = nrows b"
  shows "mm a (mneg b) = mneg (mm a b)"
  by (rule mat_eqI) (use assms in \<open>simp_all add: ent sum_negf cong: sum_less_cong\<close>)

lemma tr_mm:
  assumes "wf_mat a" "wf_mat b" "ncols a = nrows b"
  shows "transpose_mat (mm a b) = mm (transpose_mat b) (transpose_mat a)"
  by (rule mat_eqI) (use assms in \<open>simp_all add: ent mult.commute cong: sum_less_cong\<close>)

lemma tr_msub:
  assumes "wf_mat a" "wf_mat b" "nrows a = nrows b" "ncols a = ncols b"
  shows "transpose_mat (msub a b) = msub (transpose_mat a) (transpose_mat b)"
  by (rule mat_eqI) (use assms in \<open>simp_all add: ent\<close>)

lemma tr_mneg:
  assumes "wf_mat a"
  shows "transpose_mat (mneg a) = mneg (transpose_mat a)"
  by (rule mat_eqI) (use assms in \<open>simp_all add: ent\<close>)

lemma tr_eye: "transpose_mat (eye n) = eye n"
  by (rule mat_eqI) (auto simp: ent)

lemma length_mv [simp]: "wf_mat a \<Longrightarrow> length (mv a x) = nrows a"
  by (simp add: mv_def wf_mat_length)

lemma mv_ent:
  assumes "wf_mat a" "length x = ncols a" "i < nrows a"
  shows "mv a x ! i = (\<Sum>k<ncols a. rows a ! i ! k * x ! k)"
  using assms by (simp add: mv_def wf_mat_length dot_sum wf_mat_nthD)

lemma mv_mm:
  assumes "wf_mat a" "wf_mat b" "ncols a = nrows b" "length x = ncols b"
  shows "mv (mm a b) x = mv a (mv b x)"
proof (rule nth_equalityI)
  show "length (mv (mm a b) x) = length (mv a (mv b x))" using assms by simp
  fix i assume "i < length (mv (mm a b) x)"
  then have i: "i < nrows a" using assms by simp
  have "mv (mm a b) x ! i = (\<Sum>k<ncols b. (\<Sum>l<ncols a. rows a ! i ! l * rows b ! l ! k) * x ! k)"
    using assms i by (simp add: mv_ent ent cong: sum_less_cong)
  also have "\<dots> = (\<Sum>k<ncols b. \<Sum>l<ncols a. rows a ! i ! l * rows b ! l ! k * x ! k)"
    by (simp add: sum_distrib_right)
  also have "\<dots> = (\<Sum>l<ncols a. \<Sum>k<ncols b. rows a ! i ! l * rows b ! l ! k * x ! k)"
    by (rule sum.swap)
  also have "\<dots> = (\<Sum>l<ncols a. rows a ! i ! l * (\<Sum>k<ncols b. rows b ! l ! k * x ! k))"
    by (simp add: sum_distrib_left mult.assoc)
  also have "\<dots> = mv a (mv b x) ! i"
    using assms i by (simp add: mv_ent cong: sum_less_cong)
  finally show "mv (mm a b) x ! i = mv a (mv b x) ! i" .
qed

lemma mv_eye: "length x = n \<Longrightarrow> mv (eye n) x = x"
  by (rule nth_equalityI) (simp_all add: mv_ent ent sum_delta_left cong: sum_less_cong)

lemma mv_msub:
  assumes "wf_mat a" "wf_mat b" "nrows a = nrows b" "ncols a = ncols b" "length x = ncols a"
  shows "mv (msub a b) x = map2 (-) (mv a x) (mv b x)"
  by (rule nth_equalityI)
    (use assms in \<open>simp_all add: mv_ent ent sum_subtractf algebra_simps cong: sum_less_cong\<close>)

lemma mv_mneg:
  assumes "wf_mat a" "length x = ncols a"
  shows "mv (mneg a) x = map uminus (mv a x)"
  by (rule nth_equalityI)
    (use assms in \<open>simp_all add: mv_ent ent sum_negf cong: sum_less_cong\<close>)

lemma mv_diff:
  assumes "wf_mat a" "length x = ncols a" "length y = ncols a"
  shows "mv a (map2 (-) x y) = map2 (-) (mv a x) (mv a y)"
  by (rule nth_equalityI)
    (use assms in \<open>simp_all add: mv_ent sum_subtractf algebra_simps cong: sum_less_cong\<close>)

lemma mv_add:
  assumes "wf_mat a" "length x = ncols a" "length y = ncols a"
  shows "mv a (map2 (+) x y) = map2 (+) (mv a x) (mv a y)"
  by (rule nth_equalityI)
    (use assms in \<open>simp_all add: mv_ent sum.distrib algebra_simps cong: sum_less_cong\<close>)

lemma nonsingular_inverse:
  assumes a: "wf_mat a" and sq: "nrows a = ncols a" and ns: "nonsingular (nrows a) (rows a)"
  shows "\<exists>b. inverse_of a b"
proof -
  let ?n = "nrows a"
  have "\<exists>s. length s = ?n \<and> mv a s = rows (eye ?n) ! j" if "j < ?n" for j
  proof -
    have "length (rows (eye ?n) ! j) = ?n" using that by (simp add: wf_mat_nthD)
    from linalg_solve_nonsingular [OF a sq this ns]
    show ?thesis by (auto simp: matvec_def mv_def split: if_splits)
  qed
  then obtain X where X: "\<And>j. j < ?n \<Longrightarrow> length (X j) = ?n \<and> mv a (X j) = rows (eye ?n) ! j"
    by metis
  define b where "b = \<lparr>nrows = ?n, ncols = ?n, rows = map (\<lambda>i. map (\<lambda>j. X j ! i) [0..<?n]) [0..<?n]\<rparr>"
  have wb: "wf_mat b" and nb: "nrows b = ?n" "ncols b = ?n"
    by (simp_all add: b_def wf_mat_def list_all_length)
  have be: "rows b ! i ! j = X j ! i" if "i < ?n" "j < ?n" for i j
    using that by (simp add: b_def)
  have ab: "mm a b = eye ?n"
  proof (rule mat_eqI)
    fix i j assume "i < nrows (mm a b)" "j < ncols (mm a b)"
    then have i: "i < ?n" and j: "j < ?n" using nb by simp_all
    have "rows (mm a b) ! i ! j = (\<Sum>k<?n. rows a ! i ! k * X j ! k)"
      using a wb nb sq i j by (simp add: ent be cong: sum_less_cong)
    also have "\<dots> = mv a (X j) ! i"
      using mv_ent [OF a _ i, of "X j"] X [OF j] sq by simp
    also have "\<dots> = rows (eye ?n) ! j ! i"
      using X [OF j] by simp
    also have "\<dots> = rows (eye ?n) ! i ! j"
      using i j by (auto simp: ent)
    finally show "rows (mm a b) ! i ! j = rows (eye ?n) ! i ! j" .
  qed (use a wb nb sq in simp_all)
  define c where "c = mm b a"
  have wc: "wf_mat c" and nc: "nrows c = ?n" "ncols c = ?n"
    using wb nb sq by (simp_all add: c_def)
  have ac: "mm a c = a"
  proof -
    have "mm a c = mm (mm a b) a" unfolding c_def using a wb nb sq by (simp add: mm_assoc)
    also have "\<dots> = a" unfolding ab using a by (simp add: mm_eye_left)
    finally show ?thesis .
  qed
  have ce: "rows c ! k ! j = (if k = j then 1 else 0)" if k: "k < ?n" and j: "j < ?n" for k j
  proof -
    define z where "z = map (\<lambda>l. rows c ! l ! j - (if l = j then 1 else 0)) [0..<?n]"
    have lz: "length z = ?n" by (simp add: z_def)
    have "dot r z = 0" if "r \<in> set (rows a)" for r
    proof -
      from that obtain i where i: "i < ?n" and r: "r = rows a ! i"
        using a by (auto simp: in_set_conv_nth wf_mat_length)
      have "dot r z = (\<Sum>l<?n. rows a ! i ! l * z ! l)"
        using a i sq lz by (simp add: r dot_sum wf_mat_nthD)
      also have "\<dots> = (\<Sum>l<?n. rows a ! i ! l * rows c ! l ! j - rows a ! i ! l * (if l = j then 1 else 0))"
        by (intro sum.cong refl) (simp add: z_def algebra_simps)
      also have "\<dots> = rows (mm a c) ! i ! j - rows a ! i ! j"
        using a wc nc sq i j by (simp add: ent sum_subtractf sum_delta_right)
      also have "\<dots> = 0" unfolding ac by simp
      finally show ?thesis .
    qed
    with ns lz have "z = replicate ?n 0" unfolding nonsingular_def by blast
    then have "z ! k = 0" using k by simp
    then show ?thesis using k by (simp add: z_def split: if_splits)
  qed
  have ba: "mm b a = eye ?n"
    by (rule mat_eqI) (use wc nc in \<open>simp_all add: ce ent flip: c_def\<close>)
  from a wb sq nb ab ba have "inverse_of a b" by (simp add: inverse_of_def)
  then show ?thesis ..
qed

lemma inverse_ofD:
  assumes "inverse_of a b"
  shows "wf_mat a" "wf_mat b" "nrows a = ncols a" "nrows b = nrows a" "ncols b = nrows a"
    "mm a b = eye (nrows a)" "mm b a = eye (nrows a)"
  using assms by (simp_all add: inverse_of_def)

section \<open>The mean and the covariance of the sample\<close>

lemma madd_msub_cancel:
  assumes "wf_mat x" "wf_mat y" "nrows x = nrows y" "ncols x = ncols y"
  shows "msub (madd x y) x = y" "msub (madd x y) y = x" "madd (msub x y) y = x"
    "madd x (msub y x) = y"
  by (rule mat_eqI; use assms in \<open>simp add: ent\<close>)+

lemma mneg_mneg: "wf_mat x \<Longrightarrow> mneg (mneg x) = x"
  by (rule mat_eqI) (simp_all add: ent)

lemma rng_normal_ones:
  "length loc = n \<Longrightarrow> rng_normal loc (replicate n 1) z = Inr (map2 (+) loc (map z [0..<n]))"
  by (auto simp: rng_normal_def np_binop_def list_ex_iff intro!: nth_equalityI)


lemma system_matrix_madd:
  assumes "ncols Phi = nrows dl" "ncols dl = ncols Phi"
  shows "system_matrix Phi dl = Inr (madd (mm (mm Phi dl) (transpose_mat Phi)) (eye (nrows Phi)))"
  using assms by (simp add: system_matrix_def matmul_mm mat_add_madd)

lemma vec_sub_add:
  "length a = n \<Longrightarrow> length b = n \<Longrightarrow> length c = n \<Longrightarrow>
     map2 (-) a (map2 (+) b c) = map2 (-) (map2 (-) a b) (c :: vec)"
  by (rule nth_equalityI) simp_all

lemma vec_affine:
  "length u = n \<Longrightarrow> length ka = n \<Longrightarrow> length kfu = n \<Longrightarrow> length ke = n \<Longrightarrow>
     map2 (+) u (map2 (-) (map2 (-) ka kfu) ke)
       = map2 (+) (map2 (+) ka (map2 (-) u kfu)) (map uminus (ke :: vec))"
  by (rule nth_equalityI) simp_all

text \<open>The algebra of the sampler, for given inverses of the two matrices.\<close>

lemma sampler_algebra:
  assumes Phi: "wf_mat Phi" and dl: "wf_mat dl" "nrows dl = ncols Phi" "ncols dl = ncols Phi"
    and Mi: "inverse_of (madd (mm (mm Phi dl) (transpose_mat Phi)) (eye (nrows Phi))) Mi"
    and Di: "inverse_of dl Di"
  defines "K \<equiv> mm (mm dl (transpose_mat Phi)) Mi"
  defines "W \<equiv> msub dl (mm (mm K Phi) dl)"
  shows "inverse_of (madd (mm (transpose_mat Phi) Phi) Di) W"
    and "mm W (transpose_mat Phi) = K"
    and "madd (mm (mm (msub (eye (ncols Phi)) (mm K Phi)) dl)
                  (transpose_mat (msub (eye (ncols Phi)) (mm K Phi))))
              (mm (mneg K) (transpose_mat (mneg K))) = W"
proof -
  let ?D = "nrows Phi" and ?N = "ncols Phi"
  define T where "T = transpose_mat Phi"
  define FDT where "FDT = mm (mm Phi dl) T"
  define M where "M = madd FDT (eye ?D)"
  define DP where "DP = mm dl T"
  define P where "P = madd (mm T Phi) Di"
  define KT where "KT = transpose_mat K"
  have Mi': "inverse_of M Mi" using Mi by (simp add: M_def FDT_def T_def)
  have wT: "wf_mat T" "nrows T = ?N" "ncols T = ?D" using Phi by (simp_all add: T_def)
  have wFDT: "wf_mat FDT" "nrows FDT = ?D" "ncols FDT = ?D"
    using Phi wT by (simp_all add: FDT_def)
  have wM: "wf_mat M" "nrows M = ?D" "ncols M = ?D" using wFDT by (simp_all add: M_def)
  have wMi: "wf_mat Mi" "nrows Mi = ?D" "ncols Mi = ?D"
    using inverse_ofD [OF Mi'] wM by simp_all
  have MMi: "mm M Mi = eye ?D" "mm Mi M = eye ?D"
    using inverse_ofD [OF Mi'] wM by simp_all
  have wDi: "wf_mat Di" "nrows Di = ?N" "ncols Di = ?N"
    using inverse_ofD [OF Di] dl by simp_all
  have DDi: "mm dl Di = eye ?N" "mm Di dl = eye ?N"
    using inverse_ofD [OF Di] dl by simp_all
  have wDP: "wf_mat DP" "nrows DP = ?N" "ncols DP = ?D" using dl wT by (simp_all add: DP_def)
  have K: "K = mm DP Mi" by (simp add: K_def DP_def T_def)
  have wK: "wf_mat K" "nrows K = ?N" "ncols K = ?D" using wDP wMi by (simp_all add: K)
  have wKT: "wf_mat KT" "nrows KT = ?D" "ncols KT = ?N" using wK by (simp_all add: KT_def)
  have W: "W = msub dl (mm (mm K Phi) dl)" by (simp add: W_def)
  have wKF: "wf_mat (mm K Phi)" using wK by simp
  have wW: "wf_mat W" "nrows W = ?N" "ncols W = ?N" using dl wK Phi by (simp_all add: W)
  have wP: "wf_mat P" "nrows P = ?N" "ncols P = ?N" using wT wDi Phi by (simp_all add: P_def)
  note facts = Phi dl wT wFDT wM wMi wDi wDP wK wKT wW wP
  have FDT': "mm Phi DP = FDT"
    unfolding FDT_def DP_def using facts by (simp add: mm_assoc)
  have KM: "mm K M = DP"
  proof -
    have "mm K M = mm DP (mm Mi M)" unfolding K using facts by (simp add: mm_assoc)
    also have "\<dots> = DP" unfolding MMi using facts by (simp add: mm_eye_right)
    finally show ?thesis .
  qed
  have star: "madd (mm K FDT) K = DP"
  proof -
    have "mm K M = madd (mm K FDT) (mm K (eye ?D))"
      unfolding M_def using facts by (simp add: mm_madd_left)
    also have "mm K (eye ?D) = K" using facts by (simp add: mm_eye_right)
    finally show ?thesis using KM by simp
  qed
  have KFD: "mm (mm (mm K Phi) dl) T = mm K FDT"
    unfolding FDT_def using facts by (simp add: mm_assoc)
  have WT: "mm W T = K"
  proof -
    have "mm W T = msub DP (mm K FDT)"
      unfolding W DP_def using facts by (simp add: mm_msub_right KFD)
    also have "\<dots> = msub (madd (mm K FDT) K) (mm K FDT)" by (simp only: star)
    also have "\<dots> = K" using facts by (simp add: madd_msub_cancel)
    finally show ?thesis .
  qed
  have WP: "mm W P = eye ?N"
  proof -
    have 1: "mm W (mm T Phi) = mm K Phi"
      using facts by (simp add: WT mm_assoc [symmetric])
    have "mm W Di = msub (mm dl Di) (mm (mm (mm K Phi) dl) Di)"
      unfolding W using facts by (simp add: mm_msub_right)
    also have "mm (mm (mm K Phi) dl) Di = mm (mm K Phi) (mm dl Di)"
      using facts by (simp add: mm_assoc)
    also have "\<dots> = mm K Phi" unfolding DDi using facts by (simp add: mm_eye_right)
    finally have 2: "mm W Di = msub (eye ?N) (mm K Phi)" by (simp add: DDi)
    have "mm W P = madd (mm K Phi) (msub (eye ?N) (mm K Phi))"
      unfolding P_def using facts by (simp add: mm_madd_left 1 2)
    also have "\<dots> = eye ?N" using facts by (simp add: madd_msub_cancel)
    finally show ?thesis .
  qed
  have PDP: "mm P DP = mm T M"
  proof -
    have "mm Di DP = mm (mm Di dl) T" unfolding DP_def using facts by (simp add: mm_assoc)
    also have "\<dots> = T" unfolding DDi using facts by (simp add: mm_eye_left)
    finally have 1: "mm Di DP = T" .
    have 2: "mm (mm T Phi) DP = mm T FDT"
      using facts by (simp add: mm_assoc FDT')
    have "mm P DP = madd (mm T FDT) T"
      unfolding P_def using facts by (simp add: mm_madd_right 1 2)
    also have "\<dots> = madd (mm T FDT) (mm T (eye ?D))" using facts by (simp add: mm_eye_right)
    also have "\<dots> = mm T M" unfolding M_def using facts by (simp add: mm_madd_left)
    finally show ?thesis .
  qed
  have PK: "mm P K = T"
  proof -
    have "mm P K = mm (mm P DP) Mi" unfolding K using facts by (simp add: mm_assoc)
    also have "\<dots> = mm T (mm M Mi)" unfolding PDP using facts by (simp add: mm_assoc)
    also have "\<dots> = T" unfolding MMi using facts by (simp add: mm_eye_right)
    finally show ?thesis .
  qed
  have PW: "mm P W = eye ?N"
  proof -
    have "mm P (mm (mm K Phi) dl) = mm (mm (mm P K) Phi) dl"
      using facts by (simp add: mm_assoc)
    then have 1: "mm P (mm (mm K Phi) dl) = mm (mm T Phi) dl" by (simp add: PK)
    have "mm P dl = madd (mm (mm T Phi) dl) (mm Di dl)"
      unfolding P_def using facts by (simp add: mm_madd_right)
    then have 2: "mm P dl = madd (mm (mm T Phi) dl) (eye ?N)" by (simp add: DDi)
    have "mm P W = msub (madd (mm (mm T Phi) dl) (eye ?N)) (mm (mm T Phi) dl)"
      unfolding W using facts by (simp add: mm_msub_left 1 2)
    also have "\<dots> = eye ?N" using facts by (simp add: madd_msub_cancel)
    finally show ?thesis .
  qed
  from wP wW PW WP show "inverse_of (madd (mm (transpose_mat Phi) Phi) Di) W"
    by (simp add: inverse_of_def P_def T_def)
  from WT show "mm W (transpose_mat Phi) = K" by (simp add: T_def)
  define A where "A = msub (eye ?N) (mm K Phi)"
  have wA: "wf_mat A" "nrows A = ?N" "ncols A = ?N" using facts by (simp_all add: A_def)
  have AD: "mm A dl = W"
    unfolding A_def W using facts by (simp add: mm_msub_right mm_eye_left)
  have TA: "transpose_mat A = msub (eye ?N) (mm T KT)"
    unfolding A_def KT_def T_def using facts by (simp add: tr_msub tr_mm tr_eye)
  have "mm W (transpose_mat A) = msub (mm W (eye ?N)) (mm W (mm T KT))"
    unfolding TA using facts by (simp add: mm_msub_left)
  also have "mm W (eye ?N) = W" using facts by (simp add: mm_eye_right)
  also have "mm W (mm T KT) = mm (mm W T) KT" using facts by (simp add: mm_assoc)
  finally have 1: "mm W (transpose_mat A) = msub W (mm K KT)" by (simp add: WT)
  have 2: "mm (mneg K) (transpose_mat (mneg K)) = mm K KT"
    unfolding KT_def using facts by (simp add: tr_mneg mm_mneg_left mm_mneg_right mneg_mneg)
  have "madd (mm (mm A dl) (transpose_mat A)) (mm (mneg K) (transpose_mat (mneg K)))
      = madd (msub W (mm K KT)) (mm K KT)"
    by (simp only: AD 1 2)
  also have "\<dots> = W" using facts by (simp add: madd_msub_cancel)
  finally show "madd (mm (mm (msub (eye (ncols Phi)) (mm K Phi)) dl)
                  (transpose_mat (msub (eye (ncols Phi)) (mm K Phi))))
              (mm (mneg K) (transpose_mat (mneg K))) = W"
    by (simp add: A_def)
qed






lemma sampler_value_gen:
  assumes Phi: "wf_mat Phi" and dl: "wf_mat dl" "nrows dl = ncols Phi" "ncols dl = ncols Phi"
    and alpha: "length alpha = nrows Phi"
    and ns: "nonsingular (nrows Phi) (rows (madd (mm (mm Phi dl) (transpose_mat Phi)) (eye (nrows Phi))))"
    and Mi: "inverse_of (madd (mm (mm Phi dl) (transpose_mat Phi)) (eye (nrows Phi))) Mi"
    and su: "sample_u (ncols Phi) Delta g = Inr (False, u, dl)" and lu: "length u = ncols Phi"
  shows "sample_gaussian_efficient Phi alpha Delta g
       = Inr (Sample (map2 (+) u
           (mv (mm dl (transpose_mat Phi))
             (mv Mi (map2 (-) (map2 (-) alpha (mv Phi u)) (draws_eps (nrows Phi) g))))))"
proof -
  let ?D = "nrows Phi" and ?N = "ncols Phi"
  define eps where "eps = draws_eps ?D g"
  define M where "M = madd (mm (mm Phi dl) (transpose_mat Phi)) (eye ?D)"
  define DP where "DP = mm dl (transpose_mat Phi)"
  define rhs where "rhs = map2 (-) alpha (map2 (+) (mv Phi u) eps)"
  define w where "w = mv Mi rhs"
  have le: "length eps = ?D" by (simp add: eps_def draws_eps_def)
  have wM: "wf_mat M" "nrows M = ?D" "ncols M = ?D" using Phi dl by (simp_all add: M_def)
  have Mi': "inverse_of M Mi" using Mi by (simp add: M_def)
  have wMi: "wf_mat Mi" "nrows Mi = ?D" "ncols Mi = ?D" and MMi: "mm M Mi = eye ?D"
    using inverse_ofD [OF Mi'] wM by simp_all
  have lr: "length rhs = ?D" using Phi alpha le by (simp add: rhs_def)
  have 2: "matvec Phi u = Inr (mv Phi u)" using lu by (simp add: matvec_mv)
  have 3: "rng_normal (mv Phi u) (replicate ?D 1) (normal_v g) = Inr (map2 (+) (mv Phi u) eps)"
    using Phi by (simp add: rng_normal_ones eps_def draws_eps_def)
  have 4: "system_matrix Phi dl = Inr M"
    using dl by (simp add: system_matrix_madd M_def)
  have 5: "np_binop (-) alpha (map2 (+) (mv Phi u) eps) = Inr rhs"
    using alpha Phi le by (simp add: np_binop_def rhs_def)
  have "mv M w = mv (mm M Mi) rhs" unfolding w_def using wM wMi lr by (simp add: mv_mm)
  also have "\<dots> = rhs" unfolding MMi using lr by (simp add: mv_eye)
  finally have "matvec M w = Inr rhs" using wM wMi by (simp add: matvec_mv w_def)
  with ns wM have 6: "linalg_solve M rhs = Inr w"
    by (simp add: linalg_solve_Inr_iff M_def)
  have 7: "matmul dl (transpose_mat Phi) = Inr DP"
    using dl by (simp add: matmul_mm DP_def)
  have 8: "matvec DP w = Inr (mv DP w)" using wMi by (simp add: matvec_mv DP_def w_def)
  have 9: "np_binop (+) u (mv DP w) = Inr (map2 (+) u (mv DP w))"
    using lu dl by (simp add: np_binop_def DP_def)
  have "sample_gaussian_efficient Phi alpha Delta g = Inr (Sample (map2 (+) u (mv DP w)))"
    unfolding sample_gaussian_efficient_def Let_def su bindE_simps prod.case 2 3 4 5 6 7 8 9 if_False ..
  moreover have "rhs = map2 (-) (map2 (-) alpha (mv Phi u)) eps"
    unfolding rhs_def using alpha Phi le by (intro vec_sub_add [of _ ?D]) simp_all
  ultimately show ?thesis by (simp add: w_def DP_def eps_def)
qed

text \<open>
  The moments for any \<open>Delta\<close>, one- or two-dimensional, whose draw \<open>U g\<close> goes with the
  positive definite matrix \<open>dl\<close>.
\<close>

lemma sampler_moments:
  assumes Phi: "wf_mat Phi" and dl: "pos_def dl" and sh: "nrows dl = ncols Phi"
    and alpha: "length alpha = nrows Phi"
    and su: "\<And>g. sample_u (ncols Phi) Delta g = Inr (False, U g, dl)"
    and lu: "\<And>g. length (U g) = ncols Phi"
  shows "\<exists>M Mi Di V.
      system_matrix Phi dl = Inr M \<and> inverse_of M Mi \<and> inverse_of dl Di
      \<and> inverse_of (madd (mm (transpose_mat Phi) Phi) Di) V
      \<and> (let K = mm (mm dl (transpose_mat Phi)) Mi;
             c = mv K alpha;
             A = msub (eye (ncols Phi)) (mm K Phi);
             B = mneg K
         in (\<forall>g. let u = U g; eps = draws_eps (nrows Phi) g
                 in sample_gaussian_efficient Phi alpha Delta g
                      = Inr (Sample (map2 (+) u (mv (mm dl (transpose_mat Phi))
                               (mv Mi (map2 (-) (map2 (-) alpha (mv Phi u)) eps)))))
                  \<and> sample_gaussian_efficient Phi alpha Delta g
                      = Inr (Sample (map2 (+) (map2 (+) c (mv A u)) (mv B eps))))
            \<and> c = mv (mm V (transpose_mat Phi)) alpha
            \<and> madd (mm (mm A dl) (transpose_mat A)) (mm B (transpose_mat B)) = V)"
proof -
  let ?D = "nrows Phi" and ?N = "ncols Phi"
  let ?T = "transpose_mat Phi"
  from dl have wdl: "wf_mat dl" and sq: "nrows dl = ncols dl"
    by (simp_all add: pos_def_def)
  from sq sh have nc: "ncols dl = ?N" by simp
  define M where "M = madd (mm (mm Phi dl) ?T) (eye ?D)"
  have sm: "system_matrix Phi dl = Inr M"
    using sh nc by (simp add: system_matrix_madd M_def)
  from system_matrix_pos_def [OF Phi dl sh [symmetric]] sm have pM: "pos_def M" by simp
  then have wM: "wf_mat M" "nrows M = ncols M" by (simp_all add: pos_def_def)
  have nM: "nrows M = ?D" by (simp add: M_def)
  from pos_def_nonsingular [OF pM] have nsM: "nonsingular ?D (rows M)" by (simp add: nM)
  from nonsingular_inverse [OF wM pos_def_nonsingular [OF pM]]
  obtain Mi where Mi: "inverse_of M Mi" ..
  from nonsingular_inverse [OF wdl sq pos_def_nonsingular [OF dl]]
  obtain Di where Di: "inverse_of dl Di" ..
  have wMi: "wf_mat Mi" "nrows Mi = ?D" "ncols Mi = ?D"
    using inverse_ofD [OF Mi] nM by simp_all
  define K where "K = mm (mm dl ?T) Mi"
  define W where "W = msub dl (mm (mm K Phi) dl)"
  define A where "A = msub (eye ?N) (mm K Phi)"
  have wK: "wf_mat K" "nrows K = ?N" "ncols K = ?D"
    using wdl sh wMi by (simp_all add: K_def)
  note alg = sampler_algebra [OF Phi wdl sh nc Mi [unfolded M_def] Di, folded K_def, folded W_def A_def]
  have val: "sample_gaussian_efficient Phi alpha Delta g
       = Inr (Sample (map2 (+) (U g)
           (mv (mm dl ?T)
             (mv Mi (map2 (-) (map2 (-) alpha (mv Phi (U g))) (draws_eps ?D g))))))" for g
    by (rule sampler_value_gen [OF Phi wdl sh nc alpha nsM [unfolded M_def] Mi [unfolded M_def] su lu])
  have aff: "map2 (+) (U g)
           (mv (mm dl ?T)
             (mv Mi (map2 (-) (map2 (-) alpha (mv Phi (U g))) (draws_eps ?D g))))
        = map2 (+) (map2 (+) (mv K alpha) (mv A (U g))) (mv (mneg K) (draws_eps ?D g))" for g
  proof -
    define u where "u = U g"
    define eps where "eps = draws_eps ?D g"
    have lu: "length u = ?N" and le: "length eps = ?D"
      by (simp_all add: u_def eps_def lu draws_eps_def)
    define r where "r = map2 (-) (map2 (-) alpha (mv Phi u)) eps"
    have lr: "length r = ?D" using alpha Phi le by (simp add: r_def)
    have "mv (mm dl ?T) (mv Mi r) = mv K r"
      unfolding K_def using wdl sh nc wMi Phi lr by (simp add: mv_mm)
    also have "\<dots> = map2 (-) (map2 (-) (mv K alpha) (mv K (mv Phi u))) (mv K eps)"
      unfolding r_def using wK alpha Phi le by (simp add: mv_diff)
    finally have 1: "mv (mm dl ?T) (mv Mi r)
        = map2 (-) (map2 (-) (mv K alpha) (mv K (mv Phi u))) (mv K eps)" .
    have 2: "mv A u = map2 (-) u (mv K (mv Phi u))"
      unfolding A_def using wK Phi lu by (simp add: mv_msub mv_eye mv_mm)
    have 3: "mv (mneg K) eps = map uminus (mv K eps)"
      using wK le by (simp add: mv_mneg)
    have "map2 (+) u (map2 (-) (map2 (-) (mv K alpha) (mv K (mv Phi u))) (mv K eps))
        = map2 (+) (map2 (+) (mv K alpha) (map2 (-) u (mv K (mv Phi u)))) (map uminus (mv K eps))"
      using wK lu by (intro vec_affine [of _ ?N]) simp_all
    then show ?thesis unfolding 1 2 3 u_def [symmetric] eps_def [symmetric] r_def [symmetric] by (simp only: 1)
  qed
  have mean: "mv K alpha = mv (mm W ?T) alpha" by (simp only: alg(2))
  have "inverse_of M Mi \<and> inverse_of dl Di \<and> inverse_of (madd (mm ?T Phi) Di) W
      \<and> (let K = mm (mm dl ?T) Mi; c = mv K alpha; A = msub (eye ?N) (mm K Phi); B = mneg K
         in (\<forall>g. let u = U g; eps = draws_eps ?D g
                 in sample_gaussian_efficient Phi alpha Delta g
                      = Inr (Sample (map2 (+) u (mv (mm dl ?T)
                               (mv Mi (map2 (-) (map2 (-) alpha (mv Phi u)) eps)))))
                  \<and> sample_gaussian_efficient Phi alpha Delta g
                      = Inr (Sample (map2 (+) (map2 (+) c (mv A u)) (mv B eps))))
            \<and> c = mv (mm W ?T) alpha
            \<and> madd (mm (mm A dl) (transpose_mat A)) (mm B (transpose_mat B)) = W)"
    unfolding Let_def K_def [symmetric] A_def [symmetric]
    using Mi Di alg(1) alg(3) mean val aff by simp
  with sm show ?thesis by blast
qed



section \<open>A diagonal covariance\<close>

lemma pos_def_np_diag:
  assumes "\<forall>t\<in>set d. 0 < t"
  shows "pos_def (np_diag d)"
  unfolding pos_def_def
proof (intro conjI allI impI)
  let ?n = "length d"
  show "wf_mat (np_diag d)" "nrows (np_diag d) = ncols (np_diag d)"
    by (simp_all add: np_diag_def wf_mat_def list_all_length)
  fix z :: vec
  assume "length z = nrows (np_diag d)" and nz: "z \<noteq> replicate (nrows (np_diag d)) 0"
  then have lz: "length z = ?n" and nz': "z \<noteq> replicate ?n 0" by (simp_all add: np_diag_def)
  have r: "dot (rows (np_diag d) ! i) z = d ! i * z ! i" if "i < ?n" for i
  proof -
    have "rows (np_diag d) ! i = map (\<lambda>j. if i = j then d ! i else 0) [0..<?n]"
      using that by (simp add: np_diag_def)
    then have "dot (rows (np_diag d) ! i) z = (\<Sum>j<?n. (if i = j then d ! i else 0) * z ! j)"
      using lz by (simp add: dot_sum)
    also have "\<dots> = d ! i * z ! i"
      using that by (simp add: if_distrib [of "\<lambda>t. t * _"] sum.delta' cong: if_cong)
    finally show ?thesis .
  qed
  have lr: "length (rows (np_diag d)) = ?n" by (simp add: np_diag_def)
  have "quad_form (np_diag d) z = (\<Sum>i<?n. z ! i * map (\<lambda>r. dot r z) (rows (np_diag d)) ! i)"
    using lz lr by (simp add: quad_form_def dot_sum)
  also have "\<dots> = (\<Sum>i<?n. d ! i * (z ! i)\<^sup>2)"
    by (intro sum.cong refl) (simp add: lr r power2_eq_square)
  finally have q: "quad_form (np_diag d) z = (\<Sum>i<?n. d ! i * (z ! i)\<^sup>2)" .
  from nz' lz obtain i where i: "i < ?n" and zi: "z ! i \<noteq> 0"
    by (metis length_replicate nth_equalityI nth_replicate)
  have "0 < (\<Sum>i<?n. d ! i * (z ! i)\<^sup>2)"
  proof (rule sum_pos2 [of _ i])
    show "0 < d ! i * (z ! i)\<^sup>2" using assms i zi by simp
    show "0 \<le> d ! j * (z ! j)\<^sup>2" if "j \<in> {..<?n}" for j
      using assms that by (simp add: less_imp_le)
  qed (use i in simp_all)
  with q show "0 < quad_form (np_diag d) z" by simp
qed

lemma sample_u_diag:
  assumes "\<forall>t\<in>set d. 0 < t"
  shows "sample_u (length d) (Arr1 d) g = Inr (False, draws_u_diag d g, np_diag d)"
proof -
  have 1: "map (\<lambda>t. if t < 0 then 0 else sqrt t) d = map sqrt d"
    using assms by (intro map_cong refl) (auto simp: not_less dest: less_imp_le)
  have 2: "\<not> list_ex (\<lambda>t. t < 0) d" using assms by (auto simp: list_ex_iff not_less less_imp_le)
  have 3: "\<not> list_ex (\<lambda>s. s < 0) (map sqrt d)" using assms by (auto simp: list_ex_iff not_less)
  have "rng_normal (replicate (length d) 0) (map sqrt d) (normal_u g) = Inr (draws_u_diag d g)"
    using 3 by (auto simp: rng_normal_def np_binop_def draws_u_diag_def intro!: nth_equalityI)
  then show ?thesis using 2 by (simp add: sample_u_def np_sqrt_def 1)
qed

text \<open>
  The same for a one-dimensional \<open>Delta\<close> with positive entries, the diagonal of the
  covariance, as the notebook calls the sampler: the draw is \<open>u = sqrt Delta * z\<close> with
  standard normal \<open>z\<close>, which has the covariance \<open>np.diag(Delta)\<close>.
\<close>

lemma diagonal_sampler_moments:
  assumes Phi: "wf_mat Phi" and d: "\<forall>t\<in>set d. 0 < t" and sh: "length d = ncols Phi"
    and alpha: "length alpha = nrows Phi"
  shows "\<exists>M Mi Di V.
      system_matrix Phi (np_diag d) = Inr M \<and> inverse_of M Mi \<and> inverse_of (np_diag d) Di
      \<and> inverse_of (madd (mm (transpose_mat Phi) Phi) Di) V
      \<and> (let K = mm (mm (np_diag d) (transpose_mat Phi)) Mi;
             c = mv K alpha;
             A = msub (eye (ncols Phi)) (mm K Phi);
             B = mneg K
         in (\<forall>g. let u = draws_u_diag d g; eps = draws_eps (nrows Phi) g
                 in sample_gaussian_efficient Phi alpha (Arr1 d) g
                      = Inr (Sample (map2 (+) u (mv (mm (np_diag d) (transpose_mat Phi))
                               (mv Mi (map2 (-) (map2 (-) alpha (mv Phi u)) eps)))))
                  \<and> sample_gaussian_efficient Phi alpha (Arr1 d) g
                      = Inr (Sample (map2 (+) (map2 (+) c (mv A u)) (mv B eps))))
            \<and> c = mv (mm V (transpose_mat Phi)) alpha
            \<and> madd (mm (mm A (np_diag d)) (transpose_mat A)) (mm B (transpose_mat B)) = V)"
proof (rule sampler_moments [OF Phi pos_def_np_diag [OF d] _ alpha])
  show "nrows (np_diag d) = ncols Phi" using sh by (simp add: np_diag_def)
  show "sample_u (ncols Phi) (Arr1 d) g = Inr (False, draws_u_diag d g, np_diag d)" for g
    using sample_u_diag [OF d] sh by simp
  show "length (draws_u_diag d g) = ncols Phi" for g using sh by (simp add: draws_u_diag_def)
qed

end
